theory Spec2Isabelle
  imports Complex_Main
begin

section \<open>The Date object of the host language\<close>

text \<open>
  The plugin builds and reads dates through the built-in \<open>Date\<close> object, in local time.
  A date is modelled by its time value in milliseconds, counted in the local calendar:
  the local time zone is taken to have a constant offset from UTC, so the offset cancels
  in every difference of two \<open>getTime()\<close> results and is left out. The calendar
  functions are those of the ECMAScript language definition (Day, DayFromYear,
  YearFromTime, MonthFromTime, DateFromTime, MakeDay, MakeTime, MakeDate).
\<close>

type_synonym date = int

definition msPerDay :: int where
  "msPerDay = 86400000"

definition msPerHour :: int where
  "msPerHour = 3600000"

definition msPerMinute :: int where
  "msPerMinute = 60000"

definition Day :: "int \<Rightarrow> int" where
  "Day t = t div msPerDay"

definition TimeWithinDay :: "int \<Rightarrow> int" where
  "TimeWithinDay t = t mod msPerDay"

definition DaysInYear :: "int \<Rightarrow> int" where
  "DaysInYear y =
     (if y mod 4 \<noteq> 0 then 365
      else if y mod 100 \<noteq> 0 then 366
      else if y mod 400 \<noteq> 0 then 365
      else 366)"

definition DayFromYear :: "int \<Rightarrow> int" where
  "DayFromYear y =
     365 * (y - 1970) + (y - 1969) div 4 - (y - 1901) div 100 + (y - 1601) div 400"

text \<open>
  YearFromTime is the largest year whose first day is not after the given day. It is
  computed by counting up from an estimate that is never too large.
\<close>

function yearUp :: "int \<Rightarrow> int \<Rightarrow> int" where
  "yearUp d y = (if DayFromYear (y + 1) \<le> d then yearUp d (y + 1) else y)"
  by pat_completeness auto
termination
proof (relation "measure (\<lambda>(d, y). nat (d + 1 - DayFromYear (y + 1)))")
  show "wf (measure (\<lambda>(d, y). nat (d + 1 - DayFromYear (y + 1))))"
    by simp
next
  fix d y :: int
  assume a: "DayFromYear (y + 1) \<le> d"
  have p: "(y + 1 - 1969) div 4 \<le> (y + 1 + 1 - 1969) div 4"
    by (rule zdiv_mono1) simp_all
  have "(y + 1 + 1 - 1901) div 100 \<le> (y + 1 - 1901 + 100) div 100"
    by (rule zdiv_mono1) simp_all
  then have q: "(y + 1 + 1 - 1901) div 100 \<le> (y + 1 - 1901) div 100 + 1"
    by simp
  have r: "(y + 1 - 1601) div 400 \<le> (y + 1 + 1 - 1601) div 400"
    by (rule zdiv_mono1) simp_all
  have lin: "365 * (z - 1970) + a - b + c < 365 * (z + 1 - 1970) + a' - b' + c'"
    if "a \<le> a'" "b' \<le> b + 1" "c \<le> c'" for a a' b b' c c' z :: int
    using that by simp
  have "DayFromYear (y + 1) < DayFromYear (y + 1 + 1)"
    unfolding DayFromYear_def by (rule lin [OF p q r])
  with a show "((d, y + 1), (d, y)) \<in> measure (\<lambda>(d, y). nat (d + 1 - DayFromYear (y + 1)))"
    by simp
qed

declare yearUp.simps [simp del]

definition YearFromDay :: "int \<Rightarrow> int" where
  "YearFromDay d = yearUp d (1970 + (if 0 \<le> d then d div 366 else d div 365))"

definition YearFromTime :: "int \<Rightarrow> int" where
  "YearFromTime t = YearFromDay (Day t)"

definition InLeapYear :: "int \<Rightarrow> int" where
  "InLeapYear t = (if DaysInYear (YearFromTime t) = 366 then 1 else 0)"

definition DayWithinYear :: "int \<Rightarrow> int" where
  "DayWithinYear t = Day t - DayFromYear (YearFromTime t)"

text \<open>The number of days of the year that lie before month \<open>m\<close> (0 = January).\<close>

definition daysBeforeMonth :: "int \<Rightarrow> int \<Rightarrow> int" where
  "daysBeforeMonth leap m =
     (if m = 0 then 0
      else if m = 1 then 31
      else if m = 2 then 59 + leap
      else if m = 3 then 90 + leap
      else if m = 4 then 120 + leap
      else if m = 5 then 151 + leap
      else if m = 6 then 181 + leap
      else if m = 7 then 212 + leap
      else if m = 8 then 243 + leap
      else if m = 9 then 273 + leap
      else if m = 10 then 304 + leap
      else 334 + leap)"

definition MonthFromTime :: "int \<Rightarrow> int" where
  "MonthFromTime t =
     (let d = DayWithinYear t; leap = InLeapYear t in
      if d < 31 then 0
      else if d < 59 + leap then 1
      else if d < 90 + leap then 2
      else if d < 120 + leap then 3
      else if d < 151 + leap then 4
      else if d < 181 + leap then 5
      else if d < 212 + leap then 6
      else if d < 243 + leap then 7
      else if d < 273 + leap then 8
      else if d < 304 + leap then 9
      else if d < 334 + leap then 10
      else 11)"

definition DateFromTime :: "int \<Rightarrow> int" where
  "DateFromTime t = DayWithinYear t - daysBeforeMonth (InLeapYear t) (MonthFromTime t) + 1"

definition HourFromTime :: "int \<Rightarrow> int" where
  "HourFromTime t = (t div msPerHour) mod 24"

definition MinFromTime :: "int \<Rightarrow> int" where
  "MinFromTime t = (t div msPerMinute) mod 60"

definition MakeTime :: "int \<Rightarrow> int \<Rightarrow> int \<Rightarrow> int \<Rightarrow> int" where
  "MakeTime hour minute sec ms = hour * msPerHour + minute * msPerMinute + sec * 1000 + ms"

definition MakeDay :: "int \<Rightarrow> int \<Rightarrow> int \<Rightarrow> int" where
  "MakeDay year month dt =
     (let ym = year + month div 12; mn = month mod 12 in
      DayFromYear ym + daysBeforeMonth (if DaysInYear ym = 366 then 1 else 0) mn + dt - 1)"

definition MakeDate :: "int \<Rightarrow> int \<Rightarrow> int" where
  "MakeDate day time = day * msPerDay + time"

text \<open>
  \<open>new Date(year, month, day, hours, minutes)\<close>: a year from 0 to 99 stands for
  1900 + year; the fields are not range checked, they roll over. The clipping of a
  time value beyond 8.64e15 ms to an invalid date is left out: the dates that the
  parser builds stay within that range (the year has four digits, every other field
  at most two; lemma \<open>parseDateString_range\<close>).
\<close>

definition newDate :: "int \<Rightarrow> int \<Rightarrow> int \<Rightarrow> int \<Rightarrow> int \<Rightarrow> date" where
  "newDate year month day hours minutes =
     (let yr = (if 0 \<le> year \<and> year \<le> 99 then 1900 + year else year) in
      MakeDate (MakeDay yr month day) (MakeTime hours minutes 0 0))"

definition getTime :: "date \<Rightarrow> int" where
  "getTime t = t"

definition getFullYear :: "date \<Rightarrow> int" where
  "getFullYear t = YearFromTime t"

definition getMonth :: "date \<Rightarrow> int" where
  "getMonth t = MonthFromTime t"

definition getDate :: "date \<Rightarrow> int" where
  "getDate t = DateFromTime t"

definition getHours :: "date \<Rightarrow> int" where
  "getHours t = HourFromTime t"

definition getMinutes :: "date \<Rightarrow> int" where
  "getMinutes t = MinFromTime t"

section \<open>Numbers\<close>

text \<open>
  The quotients that the formatter rounds are quotients of integers below \<open>2 ^ 53\<close> by
  constants; they are modelled by exact rationals. \<open>Math.round\<close> rounds to the nearest
  integer, a tie towards plus infinity; \<open>Math.ceil\<close> is the ceiling.
\<close>

definition Math_round :: "rat \<Rightarrow> int" where
  "Math_round x = \<lfloor>x + 1 / 2\<rfloor>"

definition Math_ceil :: "rat \<Rightarrow> int" where
  "Math_ceil x = \<lceil>x\<rceil>"

text \<open>The decimal numeral of an integer, as a template string prints it.\<close>

definition digitChar :: "nat \<Rightarrow> char" where
  "digitChar n = ''0123456789'' ! n"

fun digitsOf :: "nat \<Rightarrow> string" where
  "digitsOf n = (if n < 10 then [digitChar n] else digitsOf (n div 10) @ [digitChar (n mod 10)])"

declare digitsOf.simps [simp del]

definition toString :: "int \<Rightarrow> string" where
  "toString i = (if i < 0 then CHR ''-'' # digitsOf (nat (- i)) else digitsOf (nat i))"

section \<open>The relative formatter\<close>

definition diffMs :: "date \<Rightarrow> date \<Rightarrow> int" where
  "diffMs parsedDate now = getTime parsedDate - getTime now"

definition diffHours :: "date \<Rightarrow> date \<Rightarrow> rat" where
  "diffHours parsedDate now = of_int (diffMs parsedDate now) / (1000 * 60 * 60)"

definition midnightOf :: "date \<Rightarrow> date" where
  "midnightOf d = newDate (getFullYear d) (getMonth d) (getDate d) 0 0"

definition diffDays :: "date \<Rightarrow> date \<Rightarrow> int" where
  "diffDays parsedDate now =
     Math_round (of_int (getTime (midnightOf parsedDate) - getTime (midnightOf now))
                 / (1000 * 60 * 60 * 24))"

definition hasTimeComponent :: "date \<Rightarrow> bool" where
  "hasTimeComponent parsedDate = (getHours parsedDate \<noteq> 0 \<or> getMinutes parsedDate \<noteq> 0)"

text \<open>
  The body of \<open>formatDateAsHumanReadable\<close> after the clock has been read: the phrase for
  a parsed date and the value of \<open>now\<close>.
\<close>

definition relativePhrase :: "date \<Rightarrow> date \<Rightarrow> string" where
  "relativePhrase parsedDate now =
     (let dMs = diffMs parsedDate now;
          dHours = diffHours parsedDate now;
          dDays = diffDays parsedDate now;
          absDiffDays = \<bar>dDays\<bar>;
          absDiffHours = \<bar>dHours\<bar>
      in
      if hasTimeComponent parsedDate \<and> absDiffHours < 24 then
        (let diffMinutes = (of_int dMs :: rat) / (1000 * 60);
             absDiffMinutes = \<bar>diffMinutes\<bar>
         in
         if absDiffMinutes < 5 then ''Now''
         else if absDiffMinutes < 60 then
           (let minutesDiff = Math_round absDiffMinutes in
            if diffMinutes < 0
            then (if minutesDiff = 1 then ''1 min ago'' else toString minutesDiff @ '' mins ago'')
            else (if minutesDiff = 1 then ''In 1 min'' else ''In '' @ toString minutesDiff @ '' mins''))
         else
           (let hoursDiff = Math_round absDiffHours in
            if dHours < 0
            then (if hoursDiff = 1 then ''1 hour ago'' else toString hoursDiff @ '' hours ago'')
            else (if hoursDiff = 1 then ''In 1 hour'' else ''In '' @ toString hoursDiff @ '' hours'')))
      else if dDays = 0 then ''Today''
      else if dDays = 1 then ''Tomorrow''
      else if dDays = - 1 then ''Yesterday''
      else if dDays > 1 \<and> dDays \<le> 7 then ''In '' @ toString dDays @ '' days''
      else if dDays < - 1 \<and> dDays \<ge> - 7 then toString absDiffDays @ '' days ago''
      else if dDays > 7 \<and> dDays \<le> 14 then ''Next week''
      else if dDays < - 7 \<and> dDays \<ge> - 14 then ''Last week''
      else if dDays > 14 \<and> dDays \<le> 30 then
        (let weeks = Math_ceil (of_int dDays / 7) in ''In '' @ toString weeks @ '' weeks'')
      else if dDays < - 14 \<and> dDays \<ge> - 30 then
        (let weeks = Math_ceil (of_int absDiffDays / 7) in toString weeks @ '' weeks ago'')
      else if dDays > 30 \<and> dDays \<le> 365 then
        (let months = Math_ceil (of_int dDays / 30) in
         if months = 1 then ''Next month'' else ''In '' @ toString months @ '' months'')
      else if dDays < - 30 \<and> dDays \<ge> - 365 then
        (let months = Math_ceil (of_int absDiffDays / 30) in
         if months = 1 then ''Last month'' else toString months @ '' months ago'')
      else if dDays > 365 then
        (let years = Math_ceil (of_int dDays / 365) in
         if years = 1 then ''Next year'' else ''In '' @ toString years @ '' years'')
      else
        (let years = Math_ceil (of_int absDiffDays / 365) in
         if years = 1 then ''Last year'' else toString years @ '' years ago''))"

section \<open>Regular expressions\<close>

text \<open>
  A text is the list of its code units; the model keeps the code units below 256, one
  \<open>char\<close> each, and offsets count code units. The patterns of the plugin use literals,
  the classes \<open>\s\<close> and \<open>\d\<close> under a greedy counted repetition, sequence,
  alternation, the greedy option \<open>?\<close> and capturing groups. A backtracking matcher
  tries the alternatives in a fixed order; \<open>ms\<close> lists, in that order, every way the
  pattern matches at the start of a string, as the captures of the groups (in the order
  of their opening brackets, \<open>None\<close> for a group that took no part) and the rest of the
  string. The engine reports the first element of that list.
\<close>

datatype cclass = Space | Digit

datatype regex =
    Lit string
  | Rep cclass nat "nat option"
  | Seq regex regex
  | Alt regex regex
  | Opt regex
  | Group regex

definition isSpace :: "char \<Rightarrow> bool" where
  "isSpace c = (c \<in> set [CHR 0x09, CHR 0x0A, CHR 0x0B, CHR 0x0C, CHR 0x0D, CHR 0x20, CHR 0xA0])"

definition isDigit :: "char \<Rightarrow> bool" where
  "isDigit c = (c \<in> set ''0123456789'')"

fun inClass :: "cclass \<Rightarrow> char \<Rightarrow> bool" where
  "inClass Space c = isSpace c"
| "inClass Digit c = isDigit c"

fun ngroups :: "regex \<Rightarrow> nat" where
  "ngroups (Lit w) = 0"
| "ngroups (Rep c lo hi) = 0"
| "ngroups (Seq a b) = ngroups a + ngroups b"
| "ngroups (Alt a b) = ngroups a + ngroups b"
| "ngroups (Opt a) = ngroups a"
| "ngroups (Group a) = Suc (ngroups a)"

fun ms :: "regex \<Rightarrow> string \<Rightarrow> (string option list \<times> string) list" where
  "ms (Lit w) s = (if take (length w) s = w then [([], drop (length w) s)] else [])"
| "ms (Rep c lo hi) s =
     (let n = length (takeWhile (inClass c) s);
          m = (case hi of None \<Rightarrow> n | Some h \<Rightarrow> min h n)
      in map (\<lambda>k. ([], drop k s)) (rev [lo ..< Suc m]))"
| "ms (Seq a b) s =
     concat (map (\<lambda>(c1, r1). map (\<lambda>(c2, r2). (c1 @ c2, r2)) (ms b r1)) (ms a s))"
| "ms (Alt a b) s =
     map (\<lambda>(c, r). (c @ replicate (ngroups b) None, r)) (ms a s)
     @ map (\<lambda>(c, r). (replicate (ngroups a) None @ c, r)) (ms b s)"
| "ms (Opt a) s = ms a s @ [(replicate (ngroups a) None, s)]"
| "ms (Group a) s =
     map (\<lambda>(c, r). (Some (take (length s - length r) s) # c, r)) (ms a s)"

text \<open>\<open>names.join('|')\<close> and the concatenation of sub-patterns.\<close>

fun alts :: "string list \<Rightarrow> regex" where
  "alts [] = Lit []"
| "alts [w] = Lit w"
| "alts (w # ws) = Alt (Lit w) (alts ws)"

fun seqs :: "regex list \<Rightarrow> regex" where
  "seqs [] = Lit []"
| "seqs [r] = r"
| "seqs (r # rs) = Seq r (seqs rs)"

text \<open>
  A match result: the offset of the match, the matched text (element 0 of the result
  array) and the captures (elements 1, 2, ...).
\<close>

record rmatch =
  index :: nat
  matched :: string
  captures :: "string option list"

definition group :: "rmatch \<Rightarrow> nat \<Rightarrow> string option" where
  "group m k =
     (if k = 0 then Some (matched m)
      else if k \<le> length (captures m) then captures m ! (k - 1)
      else None)"

text \<open>The search for the leftmost match in \<open>s\<close>, the part of the text from offset \<open>i\<close> on.\<close>

fun search :: "regex \<Rightarrow> nat \<Rightarrow> string \<Rightarrow> rmatch option" where
  "search re i [] =
     (case ms re [] of
        [] \<Rightarrow> None
      | (c, r) # _ \<Rightarrow> Some \<lparr>index = i, matched = [], captures = c\<rparr>)"
| "search re i (x # t) =
     (case ms re (x # t) of
        [] \<Rightarrow> search re (Suc i) t
      | (c, r) # _ \<Rightarrow>
          Some \<lparr>index = i, matched = take (length (x # t) - length r) (x # t), captures = c\<rparr>)"

text \<open>\<open>text.match(re)\<close> for a pattern without the global flag.\<close>

definition stringMatch :: "regex \<Rightarrow> string \<Rightarrow> rmatch option" where
  "stringMatch re s = search re 0 s"

text \<open>\<open>re.exec(text)\<close> for a pattern with the global flag, whose \<open>lastIndex\<close> is given.\<close>

definition exec :: "regex \<Rightarrow> string \<Rightarrow> nat \<Rightarrow> rmatch option" where
  "exec re text lastIndex =
     (if lastIndex > length text then None else search re lastIndex (drop lastIndex text))"

text \<open>
  The loop \<open>while ((match = re.exec(text)) !== null) body\<close>, started with a given
  \<open>lastIndex\<close>. After a match, \<open>lastIndex\<close> is the end of the match; a match that does
  not move it would be found again for ever.
\<close>

datatype failure = TypeError | Diverges

function execLoop ::
  "regex \<Rightarrow> string \<Rightarrow> (rmatch \<Rightarrow> 'a \<Rightarrow> failure + 'a) \<Rightarrow> nat \<Rightarrow> 'a \<Rightarrow> failure + 'a" where
  "execLoop re text body lastIndex acc =
     (case exec re text lastIndex of
        None \<Rightarrow> Inr acc
      | Some m \<Rightarrow>
          (case body m acc of
             Inl e \<Rightarrow> Inl e
           | Inr acc' \<Rightarrow>
               (let lastIndex' = index m + length (matched m) in
                if lastIndex' \<le> lastIndex then Inl Diverges
                else execLoop re text body lastIndex' acc')))"
  by pat_completeness auto
termination
proof (relation "measure (\<lambda>(re, text, body, lastIndex, acc). Suc (length text) - lastIndex)")
  show "wf (measure (\<lambda>(re, text, body, lastIndex, acc). Suc (length text) - lastIndex))"
    by simp
next
  fix re :: regex and tx :: string and body :: "rmatch \<Rightarrow> 'a \<Rightarrow> failure + 'a"
    and lastIndex :: nat and acc acc' :: 'a and m :: rmatch and lastIndex' :: nat
  assume e: "exec re tx lastIndex = Some m"
    and l: "lastIndex' = index m + length (matched m)"
    and g: "\<not> lastIndex' \<le> lastIndex"
  from e have "lastIndex \<le> length tx"
    by (simp add: exec_def split: if_splits)
  with g show "((re, tx, body, lastIndex', acc'), (re, tx, body, lastIndex, acc))
      \<in> measure (\<lambda>(re, text, body, lastIndex, acc). Suc (length text) - lastIndex)"
    by simp
qed

declare execLoop.simps [simp del]

text \<open>The occurrences of a pattern in a text: the matches the loop visits, in order.\<close>

definition occurrences :: "regex \<Rightarrow> string \<Rightarrow> failure + rmatch list" where
  "occurrences re text = execLoop re text (\<lambda>m acc. Inr (acc @ [m])) 0 []"

section \<open>The pattern compiler\<close>

definition dayNames :: "string list" where
  "dayNames = [''Mon'', ''Tue'', ''Wed'', ''Thu'', ''Fri'', ''Sat'', ''Sun'']"

definition monthNames :: "string list" where
  "monthNames = [''Jan'', ''Feb'', ''Mar'', ''Apr'', ''May'', ''Jun'',
                 ''Jul'', ''Aug'', ''Sep'', ''Oct'', ''Nov'', ''Dec'']"

definition dayPattern :: regex where
  "dayPattern = Group (alts dayNames)"

definition monthPattern :: regex where
  "monthPattern = Group (alts monthNames)"

definition dayOfMonthPattern :: regex where
  "dayOfMonthPattern = Group (Rep Digit 1 (Some 2))"

definition yearPattern :: regex where
  "yearPattern = Group (Rep Digit 4 (Some 4))"

definition timePattern :: regex where
  "timePattern =
     Opt (seqs [Rep Space 1 None, Group (Rep Digit 1 (Some 2)), Lit '':'',
                Group (Rep Digit 2 (Some 2))])"

text \<open>The format string is a parameter of the compiler, which does not read it.\<close>

definition createDateRegex :: "string \<Rightarrow> regex" where
  "createDateRegex format =
     seqs [dayPattern, Rep Space 1 None, monthPattern, Rep Space 1 None,
           dayOfMonthPattern, Rep Space 1 None, yearPattern, timePattern]"

definition createBracketedDateRegex :: "string \<Rightarrow> regex" where
  "createBracketedDateRegex format =
     seqs [Lit ''[['', Group (createDateRegex format), Lit '']]'']"

section \<open>The date parser\<close>

text \<open>
  \<open>parseInt(s, 10)\<close> on a string without leading white space or sign: the value of the
  leading decimal digits, NaN (\<open>None\<close>) when there is none.
\<close>

definition digitVal :: "char \<Rightarrow> int" where
  "digitVal c = int (of_char c) - 48"

definition parseInt :: "string \<Rightarrow> int option" where
  "parseInt s =
     (let ds = takeWhile isDigit s in
      if ds = [] then None else Some (foldl (\<lambda>a c. 10 * a + digitVal c) 0 ds))"

fun indexOfFrom :: "int \<Rightarrow> 'a list \<Rightarrow> 'a \<Rightarrow> int" where
  "indexOfFrom i [] x = - 1"
| "indexOfFrom i (y # ys) x = (if y = x then i else indexOfFrom (i + 1) ys x)"

definition indexOf :: "'a list \<Rightarrow> 'a \<Rightarrow> int" where
  "indexOf xs x = indexOfFrom 0 xs x"

text \<open>
  A Date object is a time value or the invalid date, which a NaN argument of the
  constructor gives.
\<close>

datatype jsDate = Date date | InvalidDate

definition parseDateString :: "string \<Rightarrow> string \<Rightarrow> jsDate option" where
  "parseDateString dateString format =
     (let regex = seqs [dayPattern, Rep Space 1 None, monthPattern, Rep Space 1 None,
                        dayOfMonthPattern, Rep Space 1 None, yearPattern, timePattern]
      in
      case stringMatch regex dateString of
        None \<Rightarrow> None
      | Some match \<Rightarrow>
          (let monthName = group match 2;
               dayStr = group match 3;
               yearStr = group match 4;
               hourStr = group match 5;
               minuteStr = group match 6;
               monthIndex = (case monthName of None \<Rightarrow> - 1 | Some n \<Rightarrow> indexOf monthNames n)
           in
           if monthIndex = - 1 then None
           else
             (let day = Option.bind dayStr parseInt;
                  year = Option.bind yearStr parseInt;
                  hour = (case hourStr of None \<Rightarrow> Some 0
                          | Some h \<Rightarrow> if h = [] then Some 0 else parseInt h);
                  minute = (case minuteStr of None \<Rightarrow> Some 0
                            | Some mi \<Rightarrow> if mi = [] then Some 0 else parseInt mi)
              in
              case (year, day, hour, minute) of
                (Some y, Some d, Some h, Some mi) \<Rightarrow> Some (Date (newDate y monthIndex d h mi))
              | _ \<Rightarrow> Some InvalidDate)))"

section \<open>Formatting a date string\<close>

text \<open>
  \<open>formatDateAsHumanReadable\<close> reads the wall clock itself (\<open>new Date()\<close>), once in
  every call that gets past the parser. The clock is modelled by the sequence of its
  readings: \<open>clock k\<close> is the value of the reading number \<open>k\<close>, and the number of
  readings made so far is threaded through the calls. On the invalid date every
  comparison of the formatter fails and its last branch prints NaN.
\<close>

definition formatDateAsHumanReadable ::
  "string \<Rightarrow> (nat \<Rightarrow> date) \<Rightarrow> string \<Rightarrow> nat \<Rightarrow> string option \<times> nat" where
  "formatDateAsHumanReadable format clock dateString reads =
     (case parseDateString dateString format of
        None \<Rightarrow> (None, reads)
      | Some parsedDate \<Rightarrow>
          (let now = clock reads in
           (Some (case parsedDate of
                    InvalidDate \<Rightarrow> ''NaN years ago''
                  | Date d \<Rightarrow> relativePhrase d now),
            Suc reads)))"

section \<open>The scan of a text buffer\<close>

datatype decoSpec = Widget string string bool | Mark

record decoration =
  dfrom :: nat
  dto :: nat
  spec :: decoSpec

definition widgetAt :: "nat \<Rightarrow> string \<Rightarrow> string \<Rightarrow> bool \<Rightarrow> decoration" where
  "widgetAt from originalText humanReadable isLink =
     \<lparr>dfrom = from, dto = from, spec = Widget originalText humanReadable isLink\<rparr>"

definition markRange :: "nat \<Rightarrow> nat \<Rightarrow> decoration" where
  "markRange from to = \<lparr>dfrom = from, dto = to, spec = Mark\<rparr>"

text \<open>The state of a pass: the decorations pushed so far and the number of clock readings.\<close>

type_synonym scanState = "decoration list \<times> nat"

definition truthy :: "string option \<Rightarrow> bool" where
  "truthy h = (case h of None \<Rightarrow> False | Some s \<Rightarrow> s \<noteq> [])"

fun bracketedBody ::
  "string \<Rightarrow> (nat \<Rightarrow> date) \<Rightarrow> nat \<Rightarrow> rmatch \<Rightarrow> scanState \<Rightarrow> failure + scanState" where
  "bracketedBody format clock selectionFrom match (decorations, reads) =
     (let fullMatch = matched match in
      case group match 1 of
        None \<Rightarrow> Inl TypeError
      | Some dateString \<Rightarrow>
          (case formatDateAsHumanReadable format clock dateString reads of
             (humanReadable, reads') \<Rightarrow>
               if truthy humanReadable then
                 (let from = index match;
                      to = index match + length fullMatch;
                      cursorInRange = (selectionFrom \<ge> from \<and> selectionFrom \<le> to)
                  in
                  if \<not> cursorInRange then
                    Inr (decorations @ [widgetAt from fullMatch (the humanReadable) True,
                                        markRange from to], reads')
                  else Inr (decorations, reads'))
               else Inr (decorations, reads')))"

declare bracketedBody.simps [simp del]

definition rangeBody :: "rmatch \<Rightarrow> (nat \<times> nat) list \<Rightarrow> failure + (nat \<times> nat) list" where
  "rangeBody match processedRanges =
     Inr (processedRanges @ [(index match, index match + length (matched match))])"

definition overlapsAny :: "(nat \<times> nat) list \<Rightarrow> nat \<Rightarrow> nat \<Rightarrow> bool" where
  "overlapsAny processedRanges from to =
     list_ex (\<lambda>(rfrom, rto).
        (from \<ge> rfrom \<and> from < rto) \<or> (to > rfrom \<and> to \<le> rto) \<or> (from \<le> rfrom \<and> to \<ge> rto))
       processedRanges"

fun plainBody ::
  "string \<Rightarrow> (nat \<Rightarrow> date) \<Rightarrow> nat \<Rightarrow> (nat \<times> nat) list \<Rightarrow> rmatch \<Rightarrow> scanState
     \<Rightarrow> failure + scanState" where
  "plainBody format clock selectionFrom processedRanges match (decorations, reads) =
     (let dateString = matched match;
          from = index match;
          to = index match + length dateString;
          overlaps = overlapsAny processedRanges from to
      in
      if \<not> overlaps then
        (case formatDateAsHumanReadable format clock dateString reads of
           (humanReadable, reads') \<Rightarrow>
             if truthy humanReadable then
               (let cursorInRange = (selectionFrom \<ge> from \<and> selectionFrom \<le> to) in
                if \<not> cursorInRange then
                  Inr (decorations @ [widgetAt from dateString (the humanReadable) False,
                                      markRange from to], reads')
                else Inr (decorations, reads'))
             else Inr (decorations, reads'))
      else Inr (decorations, reads))"

declare plainBody.simps [simp del]

text \<open>
  \<open>buildDecorations\<close> for a text, the offset \<open>selection.from\<close> of the cursor, the
  configured format, the clock and the number of readings made before the scan. The
  result is the sorted list of decorations and the number of readings after the scan.
  The sort of the host language is stable; so is \<open>sort_key\<close>.
\<close>

definition buildDecorations ::
  "string \<Rightarrow> (nat \<Rightarrow> date) \<Rightarrow> string \<Rightarrow> nat \<Rightarrow> nat \<Rightarrow> failure + scanState" where
  "buildDecorations format clock text selectionFrom reads =
     (let dateRegex = createDateRegex format;
          bracketedDateRegex = createBracketedDateRegex format
      in
      case execLoop bracketedDateRegex text (bracketedBody format clock selectionFrom) 0 ([], reads) of
        Inl e \<Rightarrow> Inl e
      | Inr st1 \<Rightarrow>
          (case execLoop bracketedDateRegex text rangeBody 0 [] of
             Inl e \<Rightarrow> Inl e
           | Inr processedRanges \<Rightarrow>
               (case execLoop dateRegex text
                       (plainBody format clock selectionFrom processedRanges) 0 st1 of
                  Inl e \<Rightarrow> Inl e
                | Inr (decorations, reads') \<Rightarrow> Inr (sort_key dfrom decorations, reads'))))"

section \<open>Notions used in the statements\<close>

text \<open>The condition under which the formatter takes its minute and hour branch.\<close>

definition minuteHourTier :: "date \<Rightarrow> date \<Rightarrow> bool" where
  "minuteHourTier parsedDate now =
     (hasTimeComponent parsedDate \<and> \<bar>diffHours parsedDate now\<bar> < 24)"


definition DEFAULT_dateFormat :: string where
  "DEFAULT_dateFormat = ''ddd MMM DD YYYY HH:mm''"

text \<open>
  The wording of a phrase: a phrase is a minute or hour phrase when it is "Now" or one of
  its words is a minute or hour unit.
\<close>

fun wordsOf :: "string \<Rightarrow> string list" where
  "wordsOf [] = [[]]"
| "wordsOf (c # cs) =
     (if c = CHR '' '' then [] # wordsOf cs
      else (case wordsOf cs of [] \<Rightarrow> [[c]] | w # ws \<Rightarrow> (c # w) # ws))"

definition isMinuteHourPhrase :: "string \<Rightarrow> bool" where
  "isMinuteHourPhrase s =
     (s = ''Now'' \<or> list_ex (\<lambda>u. u \<in> set [''min'', ''mins'', ''hour'', ''hours'']) (wordsOf s))"

text \<open>
  The strings a pattern denotes, without regard to the order in which a matcher tries
  them, and a lower bound of their length.
\<close>

fun lang :: "regex \<Rightarrow> string set" where
  "lang (Lit w) = {w}"
| "lang (Rep c lo hi) =
     {w. list_all (inClass c) w \<and> lo \<le> length w
         \<and> (case hi of None \<Rightarrow> True | Some h \<Rightarrow> length w \<le> h)}"
| "lang (Seq a b) = {u @ v | u v. u \<in> lang a \<and> v \<in> lang b}"
| "lang (Alt a b) = lang a \<union> lang b"
| "lang (Opt a) = lang a \<union> {[]}"
| "lang (Group a) = lang a"

fun minlen :: "regex \<Rightarrow> nat" where
  "minlen (Lit w) = length w"
| "minlen (Rep c lo hi) = lo"
| "minlen (Seq a b) = minlen a + minlen b"
| "minlen (Alt a b) = min (minlen a) (minlen b)"
| "minlen (Opt a) = 0"
| "minlen (Group a) = minlen a"

text \<open>
  The grammar of a date, in the words of the specification: a weekday name, a month name,
  a day of one or two digits and a year of four digits, separated by white space, and an
  optional time of one or two digits, a colon and two digits after white space.
\<close>

definition spaces :: "string \<Rightarrow> bool" where
  "spaces s = (s \<noteq> [] \<and> list_all isSpace s)"

definition digits :: "string \<Rightarrow> bool" where
  "digits s = list_all isDigit s"

definition timeGrammar :: "string set" where
  "timeGrammar =
     {s @ hh @ '':'' @ mi | s hh mi.
        spaces s \<and> digits hh \<and> (length hh = 1 \<or> length hh = 2) \<and> digits mi \<and> length mi = 2}"

definition dateGrammar :: "string set" where
  "dateGrammar =
     {dn @ s1 @ mn @ s2 @ dd @ s3 @ yy @ t | dn s1 mn s2 dd s3 yy t.
        dn \<in> set dayNames \<and> spaces s1 \<and> mn \<in> set monthNames \<and> spaces s2
        \<and> digits dd \<and> (length dd = 1 \<or> length dd = 2) \<and> spaces s3
        \<and> digits yy \<and> length yy = 4 \<and> (t = [] \<or> t \<in> timeGrammar)}"

definition containsDate :: "string \<Rightarrow> bool" where
  "containsDate s = (\<exists>pre w post. w \<in> dateGrammar \<and> s = pre @ w @ post)"






text \<open>A loop body run over a list of matches, stopping at the first failure.\<close>

fun foldE :: "(rmatch \<Rightarrow> 'a \<Rightarrow> failure + 'a) \<Rightarrow> rmatch list \<Rightarrow> 'a \<Rightarrow> failure + 'a" where
  "foldE body [] acc = Inr acc"
| "foldE body (m # rest) acc =
     (case body m acc of Inl e \<Rightarrow> Inl e | Inr acc' \<Rightarrow> foldE body rest acc')"

definition occurrencesFrom :: "regex \<Rightarrow> string \<Rightarrow> nat \<Rightarrow> failure + rmatch list" where
  "occurrencesFrom re text lastIndex = execLoop re text (\<lambda>m acc. Inr (acc @ [m])) lastIndex []"

definition endOf :: "rmatch \<Rightarrow> nat" where
  "endOf m = index m + length (matched m)"

text \<open>
  The span of an occurrence, and the spans that a list of decorations hides: those of its
  mark decorations, in the order of the list.
\<close>

definition spanOf :: "rmatch \<Rightarrow> nat \<times> nat" where
  "spanOf m = (index m, endOf m)"

definition markSpans :: "decoration list \<Rightarrow> (nat \<times> nat) list" where
  "markSpans decorations =
     map (\<lambda>d. (dfrom d, dto d)) (filter (\<lambda>d. spec d = Mark) decorations)"

section \<open>Decimal numerals and rounding\<close>

lemma digitsOf_nonempty: "digitsOf n \<noteq> []"
  by (subst digitsOf.simps) simp

lemma digitChar_isDigit: "n < 10 \<Longrightarrow> isDigit (digitChar n)"
proof -
  assume "n < 10"
  then have "n \<in> {0, 1, 2, 3, 4, 5, 6, 7, 8, 9}" by auto
  then show ?thesis
    by (auto simp: isDigit_def digitChar_def)
qed

lemma digitsOf_digits: "\<forall>c \<in> set (digitsOf n). isDigit c"
proof (induction n rule: digitsOf.induct)
  case (1 n)
  show ?case
  proof (cases "n < 10")
    case True
    then show ?thesis
      by (subst digitsOf.simps) (simp add: digitChar_isDigit)
  next
    case False
    with 1 show ?thesis
      by (subst digitsOf.simps) (simp add: digitChar_isDigit)
  qed
qed

lemma toString_nonneg: "0 \<le> k \<Longrightarrow> toString k = digitsOf (nat k)"
  by (simp add: toString_def)

lemma toString_head:
  "toString k \<noteq> [] \<and> (hd (toString k) = CHR ''-'' \<or> isDigit (hd (toString k)))"
  using digitsOf_nonempty [of "nat k"] digitsOf_digits [of "nat k"]
  by (auto simp: toString_def)

lemma toString_append_neq:
  assumes "w \<noteq> []" "hd w \<noteq> CHR ''-''" "\<not> isDigit (hd w)"
  shows "toString k @ s \<noteq> w"
proof
  assume e: "toString k @ s = w"
  obtain c cs where t: "toString k = c # cs"
    using toString_head [of k] by (cases "toString k") auto
  with e have "hd w = c" by auto
  with t toString_head [of k] assms show False by auto
qed

lemma ceil_gt_one: "d < n \<Longrightarrow> 0 < d \<Longrightarrow> 2 \<le> Math_ceil (of_int n / of_int d)"
proof -
  assume a: "d < n" "0 < d"
  then have "(1::rat) < of_int n / of_int d"
    by simp
  then have "1 < \<lceil>(of_int n :: rat) / of_int d\<rceil>"
    by (simp add: less_ceiling_iff)
  then show ?thesis by (simp add: Math_ceil_def)
qed

lemma Math_round_of_int: "Math_round (of_int k) = k"
proof -
  have "\<lfloor>(1::rat) / 2\<rfloor> = 0"
    by (simp add: floor_eq_iff)
  then show ?thesis
    by (simp add: Math_round_def)
qed

section \<open>The calendar\<close>

lemma div_succ:
  fixes a m :: int
  assumes "0 < m"
  shows "(a + 1) div m = a div m + (if (a + 1) mod m = 0 then 1 else 0)"
proof -
  define q where q: "q = a div m"
  define r where r: "r = a mod m"
  have a: "a = q * m + r"
    unfolding q r by simp
  have b: "0 \<le> r" "r < m"
    using assms r by simp_all
  show ?thesis
  proof (cases "r + 1 = m")
    case True
    with a have f: "a + 1 = (q + 1) * m"
      by (simp add: algebra_simps)
    have d: "(a + 1) div m = q + 1"
      by (subst f) (use assms in simp)
    have z: "(a + 1) mod m = 0"
      by (subst f) simp
    from d z q show ?thesis by simp
  next
    case False
    with b have c: "0 \<le> r + 1" "r + 1 < m"
      by linarith+
    from a have e: "a + 1 = q * m + (r + 1)"
      by simp
    have d: "(a + 1) div m = q"
      by (subst e) (use assms c in \<open>simp add: div_pos_pos_trivial\<close>)
    have z: "(a + 1) mod m = r + 1"
      by (subst e) (use c in \<open>simp add: mod_pos_pos_trivial\<close>)
    from d z b q show ?thesis by simp
  qed
qed

lemma mod_shift:
  fixes y c m :: int
  assumes "m dvd c"
  shows "(y - c) mod m = y mod m"
proof -
  from assms obtain k where "c = m * k" ..
  then show ?thesis
    by (simp add: mod_diff_eq [symmetric, of y "m * k" m])
qed

lemma DaysInYear_alt:
  "DaysInYear y = 365 + (if y mod 4 = 0 then 1 else 0) - (if y mod 100 = 0 then 1 else 0)
                  + (if y mod 400 = 0 then 1 else 0)"
proof -
  have "(4::int) dvd 100" "(100::int) dvd 400"
    by simp_all
  then have a: "y mod 100 = 0 \<Longrightarrow> y mod 4 = 0" and b: "y mod 400 = 0 \<Longrightarrow> y mod 100 = 0"
    by (meson dvd_trans mod_eq_0_iff_dvd)+
  from a b show ?thesis
    unfolding DaysInYear_def by auto
qed

lemma DayFromYear_Suc: "DayFromYear (y + 1) = DayFromYear y + DaysInYear y"
proof -
  have p: "(y - 1969 + 1) div 4 = (y - 1969) div 4 + (if y mod 4 = 0 then 1 else 0)"
    using div_succ [of 4 "y - 1969"] mod_shift [of 4 1968 y] by simp
  have q: "(y - 1901 + 1) div 100 = (y - 1901) div 100 + (if y mod 100 = 0 then 1 else 0)"
    using div_succ [of 100 "y - 1901"] mod_shift [of 100 1900 y] by simp
  have r: "(y - 1601 + 1) div 400 = (y - 1601) div 400 + (if y mod 400 = 0 then 1 else 0)"
    using div_succ [of 400 "y - 1601"] mod_shift [of 400 1600 y] by simp
  have s: "y + 1 - 1969 = y - 1969 + 1" "y + 1 - 1901 = y - 1901 + 1" "y + 1 - 1601 = y - 1601 + 1"
    by simp_all
  have lin: "365 * (y + 1 - 1970) + (a + a') - (b + b') + (c + c')
      = 365 * (y - 1970) + a - b + c + (365 + a' - b' + c')" for a a' b b' c c' :: int
    by simp
  show ?thesis
    unfolding DayFromYear_def DaysInYear_alt s p q r by (rule lin)
qed

lemma DaysInYear_bounds: "365 \<le> DaysInYear y" "DaysInYear y \<le> 366"
  by (simp_all add: DaysInYear_def)

lemma DayFromYear_1970: "DayFromYear 1970 = 0"
  by (simp add: DayFromYear_def)

lemma DayFromYear_lower: "y \<le> z \<Longrightarrow> DayFromYear y + 365 * (z - y) \<le> DayFromYear z"
proof (induction z rule: int_ge_induct)
  case base
  show ?case by simp
next
  case (step i)
  from step.IH DaysInYear_bounds(1) [of i] show ?case
    unfolding DayFromYear_Suc by (simp add: algebra_simps)
qed

lemma DayFromYear_upper: "y \<le> z \<Longrightarrow> DayFromYear z \<le> DayFromYear y + 366 * (z - y)"
proof (induction z rule: int_ge_induct)
  case base
  show ?case by simp
next
  case (step i)
  from step.IH DaysInYear_bounds(2) [of i] show ?case
    unfolding DayFromYear_Suc by (simp add: algebra_simps)
qed

lemma DayFromYear_mono: "y \<le> z \<Longrightarrow> DayFromYear y \<le> DayFromYear z"
  using DayFromYear_lower [of y z] by (smt (verit) mult_nonneg_nonneg)

lemma estimate_le:
  "DayFromYear (1970 + (if 0 \<le> d then d div 366 else d div 365)) \<le> d"
proof (cases "0 \<le> d")
  case True
  define k where "k = d div 366"
  have k: "0 \<le> k" "366 * k \<le> d"
    using True unfolding k_def by (simp_all add: pos_imp_zdiv_nonneg_iff)
  from DayFromYear_upper [of 1970 "1970 + k"] k show ?thesis
    using True by (simp add: DayFromYear_1970 k_def [symmetric])
next
  case False
  define k where "k = d div 365"
  have k: "k \<le> 0" "365 * k \<le> d"
    using False unfolding k_def by (simp_all add: div_nonpos_pos_le0)
  from DayFromYear_lower [of "1970 + k" 1970] k show ?thesis
    using False by (simp add: DayFromYear_1970 k_def [symmetric])
qed

lemma yearUp_spec:
  "DayFromYear y \<le> d \<Longrightarrow>
     DayFromYear (yearUp d y) \<le> d \<and> d < DayFromYear (yearUp d y + 1)"
proof (induction d y rule: yearUp.induct)
  case (1 d y)
  show ?case
  proof (cases "DayFromYear (y + 1) \<le> d")
    case True
    with 1 show ?thesis
      by (subst (1 2) yearUp.simps) simp
  next
    case False
    with 1 show ?thesis
      by (subst (1 2) yearUp.simps) simp
  qed
qed

lemma YearFromDay_spec:
  "DayFromYear (YearFromDay d) \<le> d \<and> d < DayFromYear (YearFromDay d + 1)"
  unfolding YearFromDay_def by (rule yearUp_spec [OF estimate_le])


lemma MonthFromTime_range: "0 \<le> MonthFromTime t \<and> MonthFromTime t \<le> 11"
  by (simp add: MonthFromTime_def Let_def)

lemma MakeDay_roundtrip:
  "MakeDay (YearFromTime t) (MonthFromTime t) (DateFromTime t) = Day t"
proof -
  from MonthFromTime_range [of t]
  have m: "MonthFromTime t div 12 = 0" "MonthFromTime t mod 12 = MonthFromTime t"
    by (simp_all add: div_pos_pos_trivial mod_pos_pos_trivial)
  show ?thesis
    unfolding MakeDay_def Let_def m DateFromTime_def InLeapYear_def DayWithinYear_def
    by simp
qed

lemma midnightOf_Day:
  assumes "\<not> (0 \<le> getFullYear t \<and> getFullYear t \<le> 99)"
  shows "midnightOf t = Day t * msPerDay"
proof -
  from assms have "(if 0 \<le> getFullYear t \<and> getFullYear t \<le> 99 then 1900 + getFullYear t
      else getFullYear t) = getFullYear t"
    by simp
  then have "midnightOf t = MakeDate (MakeDay (getFullYear t) (getMonth t) (getDate t))
      (MakeTime 0 0 0 0)"
    by (simp only: midnightOf_def newDate_def Let_def)
  then show ?thesis
    using MakeDay_roundtrip [of t]
    by (simp add: getFullYear_def getMonth_def getDate_def MakeDate_def MakeTime_def)
qed

lemma diffDays_calendar:
  assumes "\<not> (0 \<le> getFullYear p \<and> getFullYear p \<le> 99)"
    and "\<not> (0 \<le> getFullYear n \<and> getFullYear n \<le> 99)"
  shows "diffDays p n = Day p - Day n"
proof -
  have "(of_int (Day p * msPerDay - Day n * msPerDay) :: rat) / (1000 * 60 * 60 * 24)
      = of_int (Day p - Day n)"
    by (simp add: msPerDay_def diff_divide_distrib)
  then show ?thesis
    unfolding diffDays_def midnightOf_Day [OF assms(1)] midnightOf_Day [OF assms(2)] getTime_def
    by (simp only: Math_round_of_int)
qed

lemma year_from_1970:
  assumes "0 \<le> t"
  shows "1970 \<le> getFullYear t"
proof (rule ccontr)
  assume "\<not> 1970 \<le> getFullYear t"
  then have "YearFromDay (Day t) + 1 \<le> 1970"
    by (simp add: getFullYear_def YearFromTime_def)
  from DayFromYear_mono [OF this] have "DayFromYear (YearFromDay (Day t) + 1) \<le> 0"
    by (simp add: DayFromYear_1970)
  moreover have "0 \<le> Day t"
    using assms by (simp add: Day_def msPerDay_def pos_imp_zdiv_nonneg_iff)
  ultimately show False
    using YearFromDay_spec [of "Day t"] by linarith
qed

section \<open>The day, week, month and year phrases\<close>

lemma dayTier_phrase:
  assumes "\<not> minuteHourTier p n"
  shows "relativePhrase p n =
     (let dDays = diffDays p n; absDiffDays = \<bar>dDays\<bar> in
      if dDays = 0 then ''Today''
      else if dDays = 1 then ''Tomorrow''
      else if dDays = - 1 then ''Yesterday''
      else if dDays > 1 \<and> dDays \<le> 7 then ''In '' @ toString dDays @ '' days''
      else if dDays < - 1 \<and> dDays \<ge> - 7 then toString absDiffDays @ '' days ago''
      else if dDays > 7 \<and> dDays \<le> 14 then ''Next week''
      else if dDays < - 7 \<and> dDays \<ge> - 14 then ''Last week''
      else if dDays > 14 \<and> dDays \<le> 30 then
        ''In '' @ toString (Math_ceil (of_int dDays / 7)) @ '' weeks''
      else if dDays < - 14 \<and> dDays \<ge> - 30 then
        toString (Math_ceil (of_int absDiffDays / 7)) @ '' weeks ago''
      else if dDays > 30 \<and> dDays \<le> 365 then
        (let months = Math_ceil (of_int dDays / 30) in
         if months = 1 then ''Next month'' else ''In '' @ toString months @ '' months'')
      else if dDays < - 30 \<and> dDays \<ge> - 365 then
        (let months = Math_ceil (of_int absDiffDays / 30) in
         if months = 1 then ''Last month'' else toString months @ '' months ago'')
      else if dDays > 365 then
        (let years = Math_ceil (of_int dDays / 365) in
         if years = 1 then ''Next year'' else ''In '' @ toString years @ '' years'')
      else
        (let years = Math_ceil (of_int absDiffDays / 365) in
         if years = 1 then ''Last year'' else toString years @ '' years ago''))"
  using assms unfolding relativePhrase_def minuteHourTier_def Let_def
  by (simp only: if_False)

lemma toString_small: "toString 7 = ''7''" "toString 2 = ''2''"
  by code_simp+

text \<open>
  Claim C6. When the day tier applies, a day difference of 0 gives "Today", 1 gives
  "Tomorrow", -1 gives "Yesterday", a difference in (1,7] gives "In N days" (7 gives
  "In 7 days"), one in [-7,-1) gives "N days ago", one in (7,14] gives "Next week" (8
  gives "Next week"), and one in [-14,-7) gives "Last week".
\<close>

theorem C6_day_tier:
  assumes "\<not> minuteHourTier p n"
  shows "(diffDays p n = 0 \<longrightarrow> relativePhrase p n = ''Today'')
    \<and> (diffDays p n = 1 \<longrightarrow> relativePhrase p n = ''Tomorrow'')
    \<and> (diffDays p n = - 1 \<longrightarrow> relativePhrase p n = ''Yesterday'')
    \<and> (1 < diffDays p n \<and> diffDays p n \<le> 7 \<longrightarrow>
         relativePhrase p n = ''In '' @ toString (diffDays p n) @ '' days'')
    \<and> (diffDays p n = 7 \<longrightarrow> relativePhrase p n = ''In 7 days'')
    \<and> (- 7 \<le> diffDays p n \<and> diffDays p n < - 1 \<longrightarrow>
         relativePhrase p n = toString (- diffDays p n) @ '' days ago'')
    \<and> (7 < diffDays p n \<and> diffDays p n \<le> 14 \<longrightarrow> relativePhrase p n = ''Next week'')
    \<and> (diffDays p n = 8 \<longrightarrow> relativePhrase p n = ''Next week'')
    \<and> (- 14 \<le> diffDays p n \<and> diffDays p n < - 7 \<longrightarrow> relativePhrase p n = ''Last week'')"
  unfolding dayTier_phrase [OF assms] Let_def
  by (simp add: toString_small)

theorem C6_day_tier_witness:
  "\<not> minuteHourTier (newDate 2025 7 31 0 0) (newDate 2025 7 29 14 50)
   \<and> diffDays (newDate 2025 7 31 0 0) (newDate 2025 7 29 14 50) = 2
   \<and> relativePhrase (newDate 2025 7 31 0 0) (newDate 2025 7 29 14 50) = ''In 2 days''"
proof -
  let ?p = "newDate 2025 7 31 0 0" and ?n = "newDate 2025 7 29 14 50"
  have h: "\<not> minuteHourTier ?p ?n"
    by code_simp
  have d: "diffDays ?p ?n = 2"
    by code_simp
  from C6_day_tier [OF h] d have "relativePhrase ?p ?n = ''In '' @ toString 2 @ '' days''"
    by simp
  with h d show ?thesis
    by (simp add: toString_small)
qed

text \<open>
  Claim C7. In the day tier a day difference in (30,365] is counted in months of 30 days,
  rounded up, and one above 365 in years of 365 days, rounded up, with the singular
  wording when the count is 1; the past is mirrored. The divisors are the constants 30
  and 365: from 1 January 2025 to 3 March 2025 there are 61 days, which is "In 3 months".
\<close>

theorem C7_month_year:
  assumes "\<not> minuteHourTier p n"
  shows "(30 < diffDays p n \<and> diffDays p n \<le> 365 \<longrightarrow>
           relativePhrase p n =
             (if \<lceil>(of_int (diffDays p n) :: rat) / 30\<rceil> = 1 then ''Next month''
              else ''In '' @ toString \<lceil>(of_int (diffDays p n) :: rat) / 30\<rceil> @ '' months''))
    \<and> (- 365 \<le> diffDays p n \<and> diffDays p n < - 30 \<longrightarrow>
           relativePhrase p n =
             (if \<lceil>(of_int \<bar>diffDays p n\<bar> :: rat) / 30\<rceil> = 1 then ''Last month''
              else toString \<lceil>(of_int \<bar>diffDays p n\<bar> :: rat) / 30\<rceil> @ '' months ago''))
    \<and> (365 < diffDays p n \<longrightarrow>
           relativePhrase p n =
             (if \<lceil>(of_int (diffDays p n) :: rat) / 365\<rceil> = 1 then ''Next year''
              else ''In '' @ toString \<lceil>(of_int (diffDays p n) :: rat) / 365\<rceil> @ '' years''))
    \<and> (diffDays p n < - 365 \<longrightarrow>
           relativePhrase p n =
             (if \<lceil>(of_int \<bar>diffDays p n\<bar> :: rat) / 365\<rceil> = 1 then ''Last year''
              else toString \<lceil>(of_int \<bar>diffDays p n\<bar> :: rat) / 365\<rceil> @ '' years ago''))"
  unfolding dayTier_phrase [OF assms] Let_def Math_ceil_def
  by simp


theorem C7_month_year_witness:
  "\<not> minuteHourTier (newDate 2025 2 3 0 0) (newDate 2025 0 1 9 30)
   \<and> diffDays (newDate 2025 2 3 0 0) (newDate 2025 0 1 9 30) = 61
   \<and> relativePhrase (newDate 2025 2 3 0 0) (newDate 2025 0 1 9 30) = ''In 3 months''"
proof -
  let ?p = "newDate 2025 2 3 0 0" and ?n = "newDate 2025 0 1 9 30"
  have h: "\<not> minuteHourTier ?p ?n"
    by code_simp
  have d: "diffDays ?p ?n = 61"
    by code_simp
  have t: "toString 3 = ''3''"
    by code_simp
  have c: "\<lceil>(61::rat) / 30\<rceil> = 3"
    by code_simp
  from C7_month_year [OF h] d c have "relativePhrase ?p ?n = ''In '' @ toString 3 @ '' months''"
    by simp
  with h d t c show ?thesis
    by simp
qed

text \<open>
  Claim C10. The formatter never gives "Next month", "Last month", "Next year" or
  "Last year": beyond 30 days the count of months is at least 2, beyond 365 days the
  count of years is at least 2, and the phrase is the plural one.
\<close>

theorem C10_no_singular_month_year:
  "relativePhrase p n \<notin> {''Next month'', ''Last month'', ''Next year'', ''Last year''}
   \<and> (\<not> minuteHourTier p n \<and> 30 < \<bar>diffDays p n\<bar> \<and> \<bar>diffDays p n\<bar> \<le> 365 \<longrightarrow>
        2 \<le> Math_ceil (of_int \<bar>diffDays p n\<bar> / 30)
        \<and> relativePhrase p n =
            (if 0 < diffDays p n
             then ''In '' @ toString (Math_ceil (of_int \<bar>diffDays p n\<bar> / 30)) @ '' months''
             else toString (Math_ceil (of_int \<bar>diffDays p n\<bar> / 30)) @ '' months ago''))
   \<and> (\<not> minuteHourTier p n \<and> 365 < \<bar>diffDays p n\<bar> \<longrightarrow>
        2 \<le> Math_ceil (of_int \<bar>diffDays p n\<bar> / 365)
        \<and> relativePhrase p n =
            (if 0 < diffDays p n
             then ''In '' @ toString (Math_ceil (of_int \<bar>diffDays p n\<bar> / 365)) @ '' years''
             else toString (Math_ceil (of_int \<bar>diffDays p n\<bar> / 365)) @ '' years ago''))"
proof -
  let ?S = "{''Next month'', ''Last month'', ''Next year'', ''Last year''}"
  let ?d = "diffDays p n"
  have ts: "toString k @ s \<notin> ?S" for k s
    using toString_append_neq [of _ k s] by (simp add: isDigit_def)
  have m: "2 \<le> Math_ceil (of_int \<bar>?d\<bar> / 30)" if "30 < \<bar>?d\<bar>"
    using ceil_gt_one [of 30 "\<bar>?d\<bar>"] that by simp
  have y: "2 \<le> Math_ceil (of_int \<bar>?d\<bar> / 365)" if "365 < \<bar>?d\<bar>"
    using ceil_gt_one [of 365 "\<bar>?d\<bar>"] that by simp
  have day: "relativePhrase p n \<notin> ?S
      \<and> (30 < \<bar>?d\<bar> \<and> \<bar>?d\<bar> \<le> 365 \<longrightarrow>
           relativePhrase p n =
             (if 0 < ?d then ''In '' @ toString (Math_ceil (of_int \<bar>?d\<bar> / 30)) @ '' months''
              else toString (Math_ceil (of_int \<bar>?d\<bar> / 30)) @ '' months ago''))
      \<and> (365 < \<bar>?d\<bar> \<longrightarrow>
           relativePhrase p n =
             (if 0 < ?d then ''In '' @ toString (Math_ceil (of_int \<bar>?d\<bar> / 365)) @ '' years''
              else toString (Math_ceil (of_int \<bar>?d\<bar> / 365)) @ '' years ago''))"
    if t: "\<not> minuteHourTier p n"
  proof (cases "30 < \<bar>?d\<bar>")
    case False
    then show ?thesis
      unfolding dayTier_phrase [OF t] Let_def using ts by auto
  next
    case big: True
    show ?thesis
    proof (cases "365 < \<bar>?d\<bar>")
      case False
      with big m show ?thesis
        unfolding dayTier_phrase [OF t] Let_def using ts by (cases "0 < ?d") auto
    next
      case True
      with y show ?thesis
        unfolding dayTier_phrase [OF t] Let_def using ts by (cases "0 < ?d") auto
    qed
  qed
  have tier: "relativePhrase p n \<notin> ?S" if t: "minuteHourTier p n"
    using t ts unfolding relativePhrase_def minuteHourTier_def Let_def by auto
  from day tier m y show ?thesis
    by blast
qed

theorem C10_no_singular_month_year_witness:
  "relativePhrase (newDate 2025 8 1 0 0) (newDate 2025 7 1 0 0)
     \<notin> {''Next month'', ''Last month'', ''Next year'', ''Last year''}
   \<and> relativePhrase (newDate 2025 8 1 0 0) (newDate 2025 7 1 0 0) = ''In 2 months''"
proof -
  have e: "relativePhrase (newDate 2025 8 1 0 0) (newDate 2025 7 1 0 0) = ''In 2 months''"
    by code_simp
  from C10_no_singular_month_year [of "newDate 2025 8 1 0 0" "newDate 2025 7 1 0 0"] e
  show ?thesis
    by blast
qed

section \<open>The choice of the tier\<close>

lemma wordsOf_nonempty: "wordsOf s \<noteq> []"
  by (induction s) (auto split: list.splits)

lemma wordsOf_space:
  "CHR '' '' \<notin> set a \<Longrightarrow> wordsOf (a @ CHR '' '' # b) = a # wordsOf b"
  by (induction a) auto

lemma isDigit_not_space: "isDigit c \<Longrightarrow> c \<noteq> CHR '' ''"
  by (auto simp: isDigit_def)

lemma toString_no_space: "CHR '' '' \<notin> set (toString k)"
  using digitsOf_digits [of "nat k"] digitsOf_digits [of "nat (- k)"]
  by (auto simp: toString_def dest: isDigit_not_space)

lemma toString_not_unit: "toString k \<notin> set [''min'', ''mins'', ''hour'', ''hours'']"
proof
  assume a: "toString k \<in> set [''min'', ''mins'', ''hour'', ''hours'']"
  then have "hd (toString k) = CHR ''m'' \<or> hd (toString k) = CHR ''h''"
    by auto
  with toString_head [of k] show False
    by (auto simp: isDigit_def)
qed

lemma words_num: "wordsOf (toString k @ CHR '' '' # b) = toString k # wordsOf b"
  by (rule wordsOf_space [OF toString_no_space])

lemma words_In_num: "wordsOf (''In '' @ toString k @ CHR '' '' # b) = ''In'' # toString k # wordsOf b"
proof -
  have "wordsOf (''In'' @ CHR '' '' # (toString k @ CHR '' '' # b))
      = ''In'' # wordsOf (toString k @ CHR '' '' # b)"
    by (rule wordsOf_space) simp
  then show ?thesis
    by (simp add: words_num)
qed

lemma tier_phrase_is_minute_hour:
  assumes "minuteHourTier p n"
  shows "isMinuteHourPhrase (relativePhrase p n)"
  using assms toString_not_unit
  unfolding relativePhrase_def minuteHourTier_def Let_def isMinuteHourPhrase_def
  by (simp add: words_num words_In_num)

lemma day_phrase_not_minute_hour:
  assumes "\<not> minuteHourTier p n"
  shows "\<not> isMinuteHourPhrase (relativePhrase p n)"
  using toString_not_unit
  unfolding dayTier_phrase [OF assms] Let_def isMinuteHourPhrase_def
  by (simp add: words_num words_In_num)

lemma div_unique_pos:
  fixes m q r :: int
  assumes "0 \<le> r" "r < m"
  shows "(m * q + r) div m = q"
  using assms by (simp add: div_pos_pos_trivial)

lemma midnight_hour_split:
  assumes "getHours p = 0"
  shows "\<exists>s. 0 \<le> s \<and> s < msPerHour \<and> p = msPerDay * Day p + s"
proof -
  define h where "h = p div msPerHour"
  define s where "s = p mod msPerHour"
  have s: "0 \<le> s" "s < msPerHour"
    unfolding s_def msPerHour_def by simp_all
  have p: "p = msPerHour * h + s"
    unfolding h_def s_def by simp
  from assms have "h mod 24 = 0"
    by (simp add: getHours_def HourFromTime_def h_def)
  then obtain q where q: "h = 24 * q"
    by (auto simp: mod_eq_0_iff_dvd)
  have pq: "p = msPerDay * q + s"
    unfolding p q by (simp add: msPerDay_def msPerHour_def)
  have "s < msPerDay"
    using s by (simp add: msPerDay_def msPerHour_def)
  with s have "Day p = q"
    unfolding Day_def pq by (simp add: div_unique_pos)
  with pq s show ?thesis
    by auto
qed

lemma midnight_three_hours_ahead:
  assumes "\<not> hasTimeComponent p" and "diffHours p n = 3"
  shows "Day p - Day n = 1"
proof -
  from assms(1) have "getHours p = 0"
    by (simp add: hasTimeComponent_def)
  from midnight_hour_split [OF this] obtain s
    where s: "0 \<le> s" "s < msPerHour" "p = msPerDay * Day p + s"
    by blast
  from assms(2) have "(of_int (p - n) :: rat) = of_int 10800000"
    by (simp add: diffHours_def diffMs_def getTime_def)
  then have "p - n = 10800000"
    by (simp only: of_int_eq_iff)
  with s(3) have n: "n = msPerDay * (Day p - 1) + (s + 75600000)"
    by (simp add: msPerDay_def algebra_simps)
  have "0 \<le> s + 75600000" "s + 75600000 < msPerDay"
    using s by (simp_all add: msPerDay_def msPerHour_def)
  then have "(msPerDay * (Day p - 1) + (s + 75600000)) div msPerDay = Day p - 1"
    by (rule div_unique_pos)
  then have "Day n = Day p - 1"
    using n unfolding Day_def [of n] by simp
  then show ?thesis
    by simp
qed

lemma after_epoch_year:
  assumes "0 \<le> t"
  shows "\<not> (0 \<le> getFullYear t \<and> getFullYear t \<le> 99)"
  using year_from_1970 [OF assms] by simp

text \<open>
  Claim C3, as stated: the minute and hour tier is used exactly when the parsed date has a
  time component and is less than 24 hours away, and a midnight date 3 hours in the
  future gives "Today". The example fails: three hours before midnight is the day before,
  so the day difference is 1.
\<close>

theorem C3_tier_choice_counterexample:
  "\<not> hasTimeComponent (newDate 2025 7 29 0 0)
   \<and> diffHours (newDate 2025 7 29 0 0) (newDate 2025 7 28 21 0) = 3
   \<and> relativePhrase (newDate 2025 7 29 0 0) (newDate 2025 7 28 21 0) \<noteq> ''Today''"
  by code_simp

text \<open>
  Claim C3, amended: the phrase is a minute or hour phrase exactly when the parsed date
  has a time component and is less than 24 hours away; a date without time component
  that is 3 hours in the future gives "Tomorrow" (the clock being at or after the epoch).
\<close>

theorem C3_tier_choice:
  "(isMinuteHourPhrase (relativePhrase p n) \<longleftrightarrow> hasTimeComponent p \<and> \<bar>diffHours p n\<bar> < 24)
   \<and> (\<not> hasTimeComponent p \<and> diffHours p n = 3 \<and> 0 \<le> n \<longrightarrow>
        relativePhrase p n = ''Tomorrow'')"
proof (intro conjI impI)
  show "isMinuteHourPhrase (relativePhrase p n) \<longleftrightarrow> hasTimeComponent p \<and> \<bar>diffHours p n\<bar> < 24"
    using tier_phrase_is_minute_hour [of p n] day_phrase_not_minute_hour [of p n]
    by (auto simp: minuteHourTier_def)
next
  assume a: "\<not> hasTimeComponent p \<and> diffHours p n = 3 \<and> 0 \<le> n"
  then have t: "\<not> minuteHourTier p n"
    by (simp add: minuteHourTier_def)
  from a have "(of_int (p - n) :: rat) = of_int 10800000"
    by (simp add: diffHours_def diffMs_def getTime_def)
  then have "p - n = 10800000"
    by (simp only: of_int_eq_iff)
  with a have "0 \<le> p"
    by simp
  with a have "diffDays p n = Day p - Day n"
    by (simp add: diffDays_calendar after_epoch_year)
  with a have "diffDays p n = 1"
    by (simp add: midnight_three_hours_ahead)
  then show "relativePhrase p n = ''Tomorrow''"
    unfolding dayTier_phrase [OF t] by simp
qed

theorem C3_tier_choice_witness:
  "\<not> hasTimeComponent (newDate 2025 7 29 0 0)
   \<and> diffHours (newDate 2025 7 29 0 0) (newDate 2025 7 28 21 0) = 3
   \<and> 0 \<le> newDate 2025 7 28 21 0
   \<and> relativePhrase (newDate 2025 7 29 0 0) (newDate 2025 7 28 21 0) = ''Tomorrow''
   \<and> \<not> isMinuteHourPhrase (relativePhrase (newDate 2025 7 29 0 0) (newDate 2025 7 28 21 0))"
proof -
  let ?p = "newDate 2025 7 29 0 0" and ?n = "newDate 2025 7 28 21 0"
  have h: "\<not> hasTimeComponent ?p" "diffHours ?p ?n = 3" "0 \<le> ?n"
    by code_simp+
  with C3_tier_choice [of ?p ?n] show ?thesis
    by blast
qed

section \<open>The day difference\<close>

text \<open>
  For dates whose year is outside 0 to 99 the day difference is the difference of the
  two calendar days (lemma \<open>diffDays_calendar\<close>).

  Claim C2 says that the day difference is always the difference of the two dates
  truncated to midnight. The date string "Fri Jan 0 0100" is parsed to 31 December 0099;
  its midnight is rebuilt from the year 99, which the Date constructor reads as 1999, so
  the day difference to 29 August 2025 is -9373 where the calendar says -703333.
\<close>

theorem C2_two_digit_year:
  "parseDateString ''Fri Jan 0 0100'' DEFAULT_dateFormat = Some (Date (newDate 100 0 0 0 0))
   \<and> getFullYear (newDate 100 0 0 0 0) = 99
   \<and> getMonth (newDate 100 0 0 0 0) = 11
   \<and> getDate (newDate 100 0 0 0 0) = 31
   \<and> midnightOf (newDate 100 0 0 0 0) = newDate 1999 11 31 0 0
   \<and> midnightOf (newDate 100 0 0 0 0) \<noteq> Day (newDate 100 0 0 0 0) * msPerDay
   \<and> diffDays (newDate 100 0 0 0 0) (newDate 2025 7 29 14 50) = - 9373
   \<and> Day (newDate 100 0 0 0 0) - Day (newDate 2025 7 29 14 50) = - 703333
   \<and> fst (formatDateAsHumanReadable DEFAULT_dateFormat (\<lambda>k. newDate 2025 7 29 14 50)
            ''Fri Jan 0 0100'' 0) = Some ''26 years ago''"
proof -
  have a: "parseDateString ''Fri Jan 0 0100'' DEFAULT_dateFormat
      = Some (Date (newDate 100 0 0 0 0))"
    by code_simp
  have b: "getFullYear (newDate 100 0 0 0 0) = 99" "getMonth (newDate 100 0 0 0 0) = 11"
      "getDate (newDate 100 0 0 0 0) = 31"
    by code_simp+
  have c: "midnightOf (newDate 100 0 0 0 0) = newDate 1999 11 31 0 0"
    by code_simp
  have d: "midnightOf (newDate 100 0 0 0 0) \<noteq> Day (newDate 100 0 0 0 0) * msPerDay"
    by code_simp
  have e: "diffDays (newDate 100 0 0 0 0) (newDate 2025 7 29 14 50) = - 9373"
    by code_simp
  have f: "Day (newDate 100 0 0 0 0) - Day (newDate 2025 7 29 14 50) = - 703333"
    by code_simp
  have g: "fst (formatDateAsHumanReadable DEFAULT_dateFormat (\<lambda>k. newDate 2025 7 29 14 50)
            ''Fri Jan 0 0100'' 0) = Some ''26 years ago''"
    by code_simp
  from a b c d e f g show ?thesis
    by (intro conjI)
qed

theorem C2_two_digit_year_witness:
  "diffDays (newDate 100 0 0 0 0) (newDate 2025 7 29 14 50) = - 9373
   \<and> Day (newDate 100 0 0 0 0) - Day (newDate 2025 7 29 14 50) = - 703333"
  using C2_two_digit_year by blast

section \<open>The examples of the specification\<close>

text \<open>
  Claim C1, as stated: with the clock at Fri Aug 29 2025 14:50, the string
  "Fri Aug 29 2025 14:55" gives "Now", "Fri Aug 29 2025 12:00" gives "2 hours ago",
  "Thu Aug 28 2025" gives "Yesterday" and the date inside "[[Sun Aug 31 2025]]" gives
  "In 2 days". The first two fail: five minutes are not less than five minutes, and two
  hours and fifty minutes round to three hours.
\<close>

theorem C1_examples_counterexample:
  "\<not> (fst (formatDateAsHumanReadable DEFAULT_dateFormat (\<lambda>k. newDate 2025 7 29 14 50)
              ''Fri Aug 29 2025 14:55'' 0) = Some ''Now''
      \<and> fst (formatDateAsHumanReadable DEFAULT_dateFormat (\<lambda>k. newDate 2025 7 29 14 50)
              ''Fri Aug 29 2025 12:00'' 0) = Some ''2 hours ago''
      \<and> fst (formatDateAsHumanReadable DEFAULT_dateFormat (\<lambda>k. newDate 2025 7 29 14 50)
              ''Thu Aug 28 2025'' 0) = Some ''Yesterday''
      \<and> map_sum id fst (buildDecorations DEFAULT_dateFormat (\<lambda>k. newDate 2025 7 29 14 50)
              ''[[Sun Aug 31 2025]]'' 100 0)
          = Inr [widgetAt 0 ''[[Sun Aug 31 2025]]'' ''In 2 days'' True, markRange 0 19])"
proof -
  have "fst (formatDateAsHumanReadable DEFAULT_dateFormat (\<lambda>k. newDate 2025 7 29 14 50)
              ''Fri Aug 29 2025 12:00'' 0) = Some ''3 hours ago''"
    by code_simp
  then show ?thesis
    by simp
qed

text \<open>
  Claim C1, amended: at 14:50 sharp the first string gives "In 5 mins" (it gives "Now"
  once the clock is past 14:50:00.000, as at 14:50:30), the second gives "3 hours ago",
  the third "Yesterday" and the bracketed date "In 2 days".
\<close>

theorem C1_examples:
  "fst (formatDateAsHumanReadable DEFAULT_dateFormat (\<lambda>k. newDate 2025 7 29 14 50)
          ''Fri Aug 29 2025 14:55'' 0) = Some ''In 5 mins''
   \<and> fst (formatDateAsHumanReadable DEFAULT_dateFormat (\<lambda>k. newDate 2025 7 29 14 50 + 30000)
          ''Fri Aug 29 2025 14:55'' 0) = Some ''Now''
   \<and> fst (formatDateAsHumanReadable DEFAULT_dateFormat (\<lambda>k. newDate 2025 7 29 14 50)
          ''Fri Aug 29 2025 12:00'' 0) = Some ''3 hours ago''
   \<and> fst (formatDateAsHumanReadable DEFAULT_dateFormat (\<lambda>k. newDate 2025 7 29 14 50)
          ''Thu Aug 28 2025'' 0) = Some ''Yesterday''
   \<and> map_sum id fst (buildDecorations DEFAULT_dateFormat (\<lambda>k. newDate 2025 7 29 14 50)
          ''[[Sun Aug 31 2025]]'' 100 0)
      = Inr [widgetAt 0 ''[[Sun Aug 31 2025]]'' ''In 2 days'' True, markRange 0 19]"
proof -
  have a: "fst (formatDateAsHumanReadable DEFAULT_dateFormat (\<lambda>k. newDate 2025 7 29 14 50)
          ''Fri Aug 29 2025 14:55'' 0) = Some ''In 5 mins''"
    by code_simp
  have b: "fst (formatDateAsHumanReadable DEFAULT_dateFormat (\<lambda>k. newDate 2025 7 29 14 50 + 30000)
          ''Fri Aug 29 2025 14:55'' 0) = Some ''Now''"
    by code_simp
  have c: "fst (formatDateAsHumanReadable DEFAULT_dateFormat (\<lambda>k. newDate 2025 7 29 14 50)
          ''Fri Aug 29 2025 12:00'' 0) = Some ''3 hours ago''"
    by code_simp
  have d: "fst (formatDateAsHumanReadable DEFAULT_dateFormat (\<lambda>k. newDate 2025 7 29 14 50)
          ''Thu Aug 28 2025'' 0) = Some ''Yesterday''"
    by code_simp
  have e: "map_sum id fst (buildDecorations DEFAULT_dateFormat (\<lambda>k. newDate 2025 7 29 14 50)
          ''[[Sun Aug 31 2025]]'' 100 0)
      = Inr [widgetAt 0 ''[[Sun Aug 31 2025]]'' ''In 2 days'' True, markRange 0 19]"
    by code_simp
  from a b c d e show ?thesis
    by (intro conjI)
qed

theorem C1_examples_witness:
  "fst (formatDateAsHumanReadable DEFAULT_dateFormat (\<lambda>k. newDate 2025 7 29 14 50)
          ''Fri Aug 29 2025 12:00'' 0) = Some ''3 hours ago''"
  by (rule C1_examples [THEN conjunct2, THEN conjunct2, THEN conjunct1])

section \<open>The matcher and the strings of a pattern\<close>

lemma ms_Lit_iff:
  "(c, r) \<in> set (ms (Lit w) s) \<longleftrightarrow> c = [] \<and> s = w @ r"
proof -
  have "take (length w) s = w \<and> r = drop (length w) s \<longleftrightarrow> s = w @ r"
    by (metis append_eq_conv_conj)
  then show ?thesis
    by auto
qed

lemma ms_Rep_iff:
  "(c, r) \<in> set (ms (Rep cl lo hi) s) \<longleftrightarrow>
     c = [] \<and> (\<exists>k. lo \<le> k \<and> k \<le> length (takeWhile (inClass cl) s)
                 \<and> (case hi of None \<Rightarrow> True | Some h \<Rightarrow> k \<le> h) \<and> r = drop k s)"
proof (cases hi)
  case None
  then show ?thesis
    by (auto simp: Let_def simp del: upt_Suc)
next
  case (Some h)
  then show ?thesis
    by (auto simp: Let_def less_Suc_eq_le simp del: upt_Suc)
qed

lemma ms_Seq_iff:
  "(c, r) \<in> set (ms (Seq a b) s) \<longleftrightarrow>
     (\<exists>c1 r1 c2. (c1, r1) \<in> set (ms a s) \<and> (c2, r) \<in> set (ms b r1) \<and> c = c1 @ c2)"
proof -
  have h: "(c, r) \<in> set (ms (Seq a b) s) \<longleftrightarrow>
      (\<exists>x \<in> set (ms a s). \<exists>y \<in> set (ms b (snd x)). c = fst x @ fst y \<and> r = snd y)"
    by (auto simp: split_beta)
  show ?thesis
    unfolding h by force
qed

lemma ms_Alt_iff:
  "(c, r) \<in> set (ms (Alt a b) s) \<longleftrightarrow>
     (\<exists>c'. (c', r) \<in> set (ms a s) \<and> c = c' @ replicate (ngroups b) None)
     \<or> (\<exists>c'. (c', r) \<in> set (ms b s) \<and> c = replicate (ngroups a) None @ c')"
  by (simp add: image_iff split_beta Bex_def)

lemma ms_Opt_iff:
  "(c, r) \<in> set (ms (Opt a) s) \<longleftrightarrow>
     (c, r) \<in> set (ms a s) \<or> (c = replicate (ngroups a) None \<and> r = s)"
  by auto

lemma ms_Group_iff:
  "(c, r) \<in> set (ms (Group a) s) \<longleftrightarrow>
     (\<exists>c'. (c', r) \<in> set (ms a s) \<and> c = Some (take (length s - length r) s) # c')"
  by (simp add: image_iff split_beta Bex_def)

lemmas ms_iff = ms_Lit_iff ms_Rep_iff ms_Seq_iff ms_Alt_iff ms_Opt_iff ms_Group_iff

lemma ms_captures_length: "(c, r) \<in> set (ms re s) \<Longrightarrow> length c = ngroups re"
proof (induction re arbitrary: c r s)
  case (Seq a b)
  from Seq.prems obtain c1 r1 c2
    where "(c1, r1) \<in> set (ms a s)" "(c2, r) \<in> set (ms b r1)" "c = c1 @ c2"
    unfolding ms_Seq_iff by blast
  with Seq.IH show ?case
    by simp
next
  case (Alt a b)
  from Alt.prems Alt.IH show ?case
    unfolding ms_Alt_iff by auto
next
  case (Opt a)
  from Opt.prems Opt.IH show ?case
    unfolding ms_Opt_iff by auto
next
  case (Group a)
  from Group.prems Group.IH show ?case
    unfolding ms_Group_iff by auto
qed (simp_all only: ms_Lit_iff ms_Rep_iff ngroups.simps list.size)

lemma takeWhile_take_all:
  "k \<le> length (takeWhile P s) \<Longrightarrow> list_all P (take k s)"
proof -
  assume a: "k \<le> length (takeWhile P s)"
  have "take k s = take k (takeWhile P s @ dropWhile P s)"
    by simp
  also have "\<dots> = take k (takeWhile P s)"
    using a by (simp del: takeWhile_dropWhile_id)
  finally have "set (take k s) \<subseteq> set (takeWhile P s)"
    by (simp add: set_take_subset)
  then show ?thesis
    by (auto simp: list_all_iff dest: set_takeWhileD)
qed

lemma takeWhile_length_ge:
  "list_all P w \<Longrightarrow> length w \<le> length (takeWhile P (w @ r))"
  by (induction w) auto

lemma ms_sound: "(c, r) \<in> set (ms re s) \<Longrightarrow> \<exists>w \<in> lang re. s = w @ r"
proof (induction re arbitrary: c r s)
  case (Lit w)
  then show ?case
    unfolding ms_Lit_iff by simp
next
  case (Rep cl lo hi)
  from Rep obtain k where k: "lo \<le> k" "k \<le> length (takeWhile (inClass cl) s)"
      "case hi of None \<Rightarrow> True | Some h \<Rightarrow> k \<le> h" "r = drop k s"
    unfolding ms_Rep_iff by blast
  have "k \<le> length s"
    using k(2) length_takeWhile_le [of "inClass cl" s] by linarith
  then have l: "length (take k s) = k"
    by simp
  have "take k s \<in> lang (Rep cl lo hi)"
    using k takeWhile_take_all [OF k(2)] l by (auto split: option.splits)
  moreover have "s = take k s @ r"
    using k(4) by simp
  ultimately show ?case
    by blast
next
  case (Seq a b)
  from Seq.prems obtain c1 r1 c2 where m: "(c1, r1) \<in> set (ms a s)" "(c2, r) \<in> set (ms b r1)"
    unfolding ms_Seq_iff by blast
  from Seq.IH(1) [OF m(1)] obtain u where u: "u \<in> lang a" "s = u @ r1"
    by blast
  from Seq.IH(2) [OF m(2)] obtain v where v: "v \<in> lang b" "r1 = v @ r"
    by blast
  from u v have "u @ v \<in> lang (Seq a b)" "s = (u @ v) @ r"
    by auto
  then show ?case
    by blast
next
  case (Alt a b)
  from Alt.prems consider c' where "(c', r) \<in> set (ms a s)" | c' where "(c', r) \<in> set (ms b s)"
    unfolding ms_Alt_iff by blast
  then show ?case
  proof cases
    case 1
    from Alt.IH(1) [OF 1] show ?thesis by auto
  next
    case 2
    from Alt.IH(2) [OF 2] show ?thesis by auto
  qed
next
  case (Opt a)
  from Opt.prems consider "(c, r) \<in> set (ms a s)" | "r = s"
    unfolding ms_Opt_iff by blast
  then show ?case
  proof cases
    case 1
    from Opt.IH [OF 1] show ?thesis by auto
  next
    case 2
    then show ?thesis by simp
  qed
next
  case (Group a)
  from Group.prems obtain c' where "(c', r) \<in> set (ms a s)"
    unfolding ms_Group_iff by blast
  from Group.IH [OF this] show ?case
    by simp
qed

lemma ms_complete: "w \<in> lang re \<Longrightarrow> \<exists>c. (c, r) \<in> set (ms re (w @ r))"
proof (induction re arbitrary: w r)
  case (Lit x)
  then show ?case
    unfolding ms_Lit_iff by simp
next
  case (Rep cl lo hi)
  then have w: "list_all (inClass cl) w" "lo \<le> length w"
      "case hi of None \<Rightarrow> True | Some h \<Rightarrow> length w \<le> h"
    by simp_all
  have "([], r) \<in> set (ms (Rep cl lo hi) (w @ r))"
    unfolding ms_Rep_iff using w takeWhile_length_ge [OF w(1), of r]
    by (intro conjI exI [of _ "length w"]) simp_all
  then show ?case
    by blast
next
  case (Seq a b)
  from Seq.prems obtain u v where uv: "w = u @ v" "u \<in> lang a" "v \<in> lang b"
    by auto
  from Seq.IH(1) [OF uv(2), of "v @ r"] obtain c1 where c1: "(c1, v @ r) \<in> set (ms a (u @ v @ r))"
    by blast
  from Seq.IH(2) [OF uv(3), of r] obtain c2 where c2: "(c2, r) \<in> set (ms b (v @ r))"
    by blast
  from c1 c2 have "(c1 @ c2, r) \<in> set (ms (Seq a b) (w @ r))"
    unfolding uv(1) ms_Seq_iff append_assoc by blast
  then show ?case
    by blast
next
  case (Alt a b)
  from Alt.prems consider "w \<in> lang a" | "w \<in> lang b"
    by auto
  then show ?case
  proof cases
    case 1
    from Alt.IH(1) [OF 1, of r] show ?thesis
      unfolding ms_Alt_iff by blast
  next
    case 2
    from Alt.IH(2) [OF 2, of r] show ?thesis
      unfolding ms_Alt_iff by blast
  qed
next
  case (Opt a)
  from Opt.prems consider "w \<in> lang a" | "w = []"
    by auto
  then show ?case
  proof cases
    case 1
    from Opt.IH [OF 1, of r] show ?thesis
      unfolding ms_Opt_iff by blast
  next
    case 2
    then show ?thesis
      unfolding ms_Opt_iff by auto
  qed
next
  case (Group a)
  then have "w \<in> lang a"
    by simp
  from Group.IH [OF this, of r] show ?case
    unfolding ms_Group_iff by blast
qed

lemma ms_nonempty_iff: "ms re s \<noteq> [] \<longleftrightarrow> (\<exists>w r. w \<in> lang re \<and> s = w @ r)"
proof
  assume "ms re s \<noteq> []"
  then obtain c r where "(c, r) \<in> set (ms re s)"
    by (cases "ms re s") auto
  from ms_sound [OF this] show "\<exists>w r. w \<in> lang re \<and> s = w @ r"
    by blast
next
  assume "\<exists>w r. w \<in> lang re \<and> s = w @ r"
  then obtain w r where "w \<in> lang re" "s = w @ r"
    by blast
  with ms_complete [of w re r] show "ms re s \<noteq> []"
    by auto
qed

lemma lang_minlen: "w \<in> lang re \<Longrightarrow> minlen re \<le> length w"
proof (induction re arbitrary: w)
  case (Seq a b)
  from Seq.prems obtain u v where uv: "w = u @ v" "u \<in> lang a" "v \<in> lang b"
    by auto
  from Seq.IH(1) [OF uv(2)] Seq.IH(2) [OF uv(3)] show ?case
    unfolding uv(1) by simp
next
  case (Alt a b)
  from Alt.prems consider "w \<in> lang a" | "w \<in> lang b"
    by auto
  then show ?case
  proof cases
    case 1
    from Alt.IH(1) [OF 1] show ?thesis by simp
  next
    case 2
    from Alt.IH(2) [OF 2] show ?thesis by simp
  qed
qed simp_all

lemma ms_Seq_elim:
  assumes "(c, r) \<in> set (ms (Seq a b) s)"
  obtains c1 r1 c2 where "(c1, r1) \<in> set (ms a s)" "(c2, r) \<in> set (ms b r1)" "c = c1 @ c2"
  using assms unfolding ms_Seq_iff by blast

lemma ms_Group_elim:
  assumes "(c, r) \<in> set (ms (Group a) s)"
  obtains c' w where "(c', r) \<in> set (ms a s)" "c = Some w # c'" "w \<in> lang a" "s = w @ r"
proof -
  from assms obtain c' where c': "(c', r) \<in> set (ms a s)"
      "c = Some (take (length s - length r) s) # c'"
    unfolding ms_Group_iff by blast
  from ms_sound [OF c'(1)] obtain w where w: "w \<in> lang a" "s = w @ r"
    by blast
  then have "take (length s - length r) s = w"
    by simp
  with c' w that show thesis
    by blast
qed

lemma ms_no_groups: "ngroups a = 0 \<Longrightarrow> (c, r) \<in> set (ms a s) \<Longrightarrow> c = []"
  using ms_captures_length [of c r a s] by simp

section \<open>The search for a match\<close>

lemma search_None_iff:
  "search re i s = None \<longleftrightarrow> (\<forall>k \<le> length s. ms re (drop k s) = [])"
proof (induction s arbitrary: i)
  case Nil
  show ?case
    by (simp split: list.splits prod.splits)
next
  case (Cons x t)
  have "(\<forall>k \<le> length (x # t). ms re (drop k (x # t)) = [])
      \<longleftrightarrow> ms re (x # t) = [] \<and> (\<forall>k \<le> length t. ms re (drop k t) = [])"
  proof
    assume a: "\<forall>k \<le> length (x # t). ms re (drop k (x # t)) = []"
    from a [rule_format, of 0] have "ms re (x # t) = []"
      by simp
    moreover have "ms re (drop k t) = []" if "k \<le> length t" for k
      using a [rule_format, of "Suc k"] that by simp
    ultimately show "ms re (x # t) = [] \<and> (\<forall>k \<le> length t. ms re (drop k t) = [])"
      by blast
  next
    assume a: "ms re (x # t) = [] \<and> (\<forall>k \<le> length t. ms re (drop k t) = [])"
    show "\<forall>k \<le> length (x # t). ms re (drop k (x # t)) = []"
    proof (intro allI impI)
      fix k
      assume "k \<le> length (x # t)"
      with a show "ms re (drop k (x # t)) = []"
        by (cases k) simp_all
    qed
  qed
  with Cons.IH [of "Suc i"] show ?case
    by (simp split: list.splits prod.splits)
qed

lemma search_Some:
  "search re i s = Some m \<Longrightarrow>
     \<exists>k c r rest. k \<le> length s \<and> index m = i + k \<and> ms re (drop k s) = (c, r) # rest
       \<and> matched m = take (length (drop k s) - length r) (drop k s) \<and> captures m = c"
proof (induction s arbitrary: i)
  case Nil
  then obtain c r rest where "ms re [] = (c, r) # rest" "m = \<lparr>index = i, matched = [], captures = c\<rparr>"
    by (auto split: list.splits prod.splits)
  then show ?case
    by (intro exI [of _ 0] exI [of _ c] exI [of _ r] exI [of _ rest]) simp
next
  case (Cons x t)
  show ?case
  proof (cases "ms re (x # t)")
    case Nil
    with Cons.prems have "search re (Suc i) t = Some m"
      by simp
    from Cons.IH [OF this] obtain k c r rest where k: "k \<le> length t" "index m = Suc i + k"
        "ms re (drop k t) = (c, r) # rest"
        "matched m = take (length (drop k t) - length r) (drop k t)" "captures m = c"
      by blast
    then show ?thesis
      by (intro exI [of _ "Suc k"] exI [of _ c] exI [of _ r] exI [of _ rest]) simp
  next
    case (Cons p rest)
    obtain c r where p: "p = (c, r)"
      by (cases p)
    with Cons Cons.prems
    have "m = \<lparr>index = i, matched = take (length (x # t) - length r) (x # t), captures = c\<rparr>"
      by simp
    with Cons p show ?thesis
      by (intro exI [of _ 0] exI [of _ c] exI [of _ r] exI [of _ rest]) simp
  qed
qed

lemma search_Some_lang:
  assumes "search re i s = Some m"
  shows "matched m \<in> lang re \<and> i \<le> index m \<and> index m - i + length (matched m) \<le> length s
    \<and> matched m = take (length (matched m)) (drop (index m - i) s)
    \<and> (\<exists>r. (captures m, r) \<in> set (ms re (drop (index m - i) s))
             \<and> drop (index m - i) s = matched m @ r)"
proof -
  from search_Some [OF assms] obtain k c r rest where k: "k \<le> length s" "index m = i + k"
      "ms re (drop k s) = (c, r) # rest"
      "matched m = take (length (drop k s) - length r) (drop k s)" "captures m = c"
    by blast
  from k(3) have mem: "(c, r) \<in> set (ms re (drop k s))"
    by simp
  from ms_sound [OF mem] obtain w where w: "w \<in> lang re" "drop k s = w @ r"
    by blast
  from k(4) w have mw: "matched m = w"
    by simp
  have "length (drop k s) = length w + length r"
    using w(2) by simp
  then have "k + length w \<le> length s"
    using k(1) by simp
  with k w mw mem show ?thesis
    by auto
qed

lemma search_None_lang:
  "search re i s = None \<longleftrightarrow> \<not> (\<exists>pre w post. w \<in> lang re \<and> s = pre @ w @ post)"
proof -
  have "(\<exists>k \<le> length s. ms re (drop k s) \<noteq> []) \<longleftrightarrow> (\<exists>pre w post. w \<in> lang re \<and> s = pre @ w @ post)"
  proof
    assume "\<exists>k \<le> length s. ms re (drop k s) \<noteq> []"
    then obtain k where k: "k \<le> length s" "ms re (drop k s) \<noteq> []"
      by blast
    from k(2) obtain w r where w: "w \<in> lang re" "drop k s = w @ r"
      unfolding ms_nonempty_iff by blast
    have "s = take k s @ w @ r"
      using w(2) by (metis append_take_drop_id)
    with w(1) show "\<exists>pre w post. w \<in> lang re \<and> s = pre @ w @ post"
      by blast
  next
    assume "\<exists>pre w post. w \<in> lang re \<and> s = pre @ w @ post"
    then obtain pre w post where w: "w \<in> lang re" "s = pre @ w @ post"
      by blast
    then have "drop (length pre) s = w @ post" "length pre \<le> length s"
      by simp_all
    with w(1) have "ms re (drop (length pre) s) \<noteq> []"
      unfolding ms_nonempty_iff by blast
    with \<open>length pre \<le> length s\<close> show "\<exists>k \<le> length s. ms re (drop k s) \<noteq> []"
      by blast
  qed
  then show ?thesis
    unfolding search_None_iff by blast
qed

section \<open>The date pattern and the grammar\<close>

lemma lang_alts: "ws \<noteq> [] \<Longrightarrow> lang (alts ws) = set ws"
  by (induction ws rule: alts.induct) auto

lemma lang_spaces: "lang (Rep Space 1 None) = {s. spaces s}"
  by (auto simp: spaces_def list_all_iff Suc_le_eq)

lemma lang_day_digits:
  "lang (Rep Digit 1 (Some 2)) = {d. digits d \<and> (length d = 1 \<or> length d = 2)}"
  by (auto simp: digits_def list_all_iff)

lemma lang_year_digits: "lang (Rep Digit 4 (Some 4)) = {d. digits d \<and> length d = 4}"
  by (auto simp: digits_def list_all_iff)

lemma lang_minute_digits: "lang (Rep Digit 2 (Some 2)) = {d. digits d \<and> length d = 2}"
  by (auto simp: digits_def list_all_iff)

lemma lang_Seq_mem: "w \<in> lang (Seq a b) \<longleftrightarrow> (\<exists>u v. w = u @ v \<and> u \<in> lang a \<and> v \<in> lang b)"
  by auto

lemma lang_time_seq:
  "w \<in> lang (seqs [Rep Space 1 None, Group (Rep Digit 1 (Some 2)), Lit '':'',
                 Group (Rep Digit 2 (Some 2))]) \<longleftrightarrow> w \<in> timeGrammar"
proof
  assume "w \<in> lang (seqs [Rep Space 1 None, Group (Rep Digit 1 (Some 2)), Lit '':'',
                 Group (Rep Digit 2 (Some 2))])"
  then obtain s v1 where 1: "w = s @ v1" "s \<in> lang (Rep Space 1 None)"
      "v1 \<in> lang (Seq (Group (Rep Digit 1 (Some 2))) (Seq (Lit '':'') (Group (Rep Digit 2 (Some 2)))))"
    unfolding seqs.simps lang_Seq_mem by blast
  from 1(3) obtain hh v2 where 2: "v1 = hh @ v2" "hh \<in> lang (Group (Rep Digit 1 (Some 2)))"
      "v2 \<in> lang (Seq (Lit '':'') (Group (Rep Digit 2 (Some 2))))"
    unfolding lang_Seq_mem by blast
  from 2(3) obtain mi where 3: "v2 = '':'' @ mi" "mi \<in> lang (Group (Rep Digit 2 (Some 2)))"
    unfolding lang_Seq_mem by auto
  from 1 2 3 have "w = s @ hh @ '':'' @ mi" "spaces s" "digits hh"
      "length hh = 1 \<or> length hh = 2" "digits mi" "length mi = 2"
    using lang_spaces lang_day_digits lang_minute_digits by auto
  then show "w \<in> timeGrammar"
    unfolding timeGrammar_def by blast
next
  assume "w \<in> timeGrammar"
  then obtain s hh mi where g: "w = s @ hh @ '':'' @ mi" "spaces s" "digits hh"
      "length hh = 1 \<or> length hh = 2" "digits mi" "length mi = 2"
    unfolding timeGrammar_def by blast
  from g have m: "s \<in> lang (Rep Space 1 None)" "hh \<in> lang (Group (Rep Digit 1 (Some 2)))"
      "mi \<in> lang (Group (Rep Digit 2 (Some 2)))"
    using lang_spaces lang_day_digits lang_minute_digits by auto
  have "'':'' @ mi \<in> lang (Seq (Lit '':'') (Group (Rep Digit 2 (Some 2))))"
    unfolding lang_Seq_mem using m(3) by (intro exI [of _ "'':''"] exI [of _ mi]) simp
  then have "hh @ '':'' @ mi
      \<in> lang (Seq (Group (Rep Digit 1 (Some 2))) (Seq (Lit '':'') (Group (Rep Digit 2 (Some 2)))))"
    unfolding lang_Seq_mem [of _ "Group (Rep Digit 1 (Some 2))"] using m(2) by blast
  with m(1) show "w \<in> lang (seqs [Rep Space 1 None, Group (Rep Digit 1 (Some 2)), Lit '':'',
                 Group (Rep Digit 2 (Some 2))])"
    unfolding seqs.simps g(1) lang_Seq_mem [of _ "Rep Space 1 None"] by blast
qed

lemma lang_timePattern: "t \<in> lang timePattern \<longleftrightarrow> t = [] \<or> t \<in> timeGrammar"
  unfolding timePattern_def lang.simps(5) Un_iff lang_time_seq by auto

lemma lang_dayPattern: "lang dayPattern = set dayNames"
  unfolding dayPattern_def lang.simps by (rule lang_alts) (simp add: dayNames_def)

lemma lang_monthPattern: "lang monthPattern = set monthNames"
  unfolding monthPattern_def lang.simps by (rule lang_alts) (simp add: monthNames_def)

lemma lang_seqs_ConsD:
  "w \<in> lang (seqs (r # r' # rs)) \<Longrightarrow>
     \<exists>u v. w = u @ v \<and> u \<in> lang r \<and> v \<in> lang (seqs (r' # rs))"
  by auto

lemma lang_seqs_ConsI:
  "u \<in> lang r \<Longrightarrow> v \<in> lang (seqs (r' # rs)) \<Longrightarrow> u @ v \<in> lang (seqs (r # r' # rs))"
  by auto

lemma lang_createDateRegex: "lang (createDateRegex format) = dateGrammar"
proof (intro set_eqI iffI)
  fix w
  assume "w \<in> lang (createDateRegex format)"
  then have 0: "w \<in> lang (seqs [dayPattern, Rep Space 1 None, monthPattern, Rep Space 1 None,
           dayOfMonthPattern, Rep Space 1 None, yearPattern, timePattern])"
    by (simp only: createDateRegex_def)
  from lang_seqs_ConsD [OF 0] obtain dn v1 where 1: "w = dn @ v1" "dn \<in> lang dayPattern"
      "v1 \<in> lang (seqs [Rep Space 1 None, monthPattern, Rep Space 1 None,
           dayOfMonthPattern, Rep Space 1 None, yearPattern, timePattern])"
    by blast
  from lang_seqs_ConsD [OF 1(3)] obtain s1 v2 where 2: "v1 = s1 @ v2" "s1 \<in> lang (Rep Space 1 None)"
      "v2 \<in> lang (seqs [monthPattern, Rep Space 1 None,
           dayOfMonthPattern, Rep Space 1 None, yearPattern, timePattern])"
    by blast
  from lang_seqs_ConsD [OF 2(3)] obtain mn v3 where 3: "v2 = mn @ v3" "mn \<in> lang monthPattern"
      "v3 \<in> lang (seqs [Rep Space 1 None, dayOfMonthPattern, Rep Space 1 None, yearPattern,
           timePattern])"
    by blast
  from lang_seqs_ConsD [OF 3(3)] obtain s2 v4 where 4: "v3 = s2 @ v4" "s2 \<in> lang (Rep Space 1 None)"
      "v4 \<in> lang (seqs [dayOfMonthPattern, Rep Space 1 None, yearPattern, timePattern])"
    by blast
  from lang_seqs_ConsD [OF 4(3)] obtain dd v5 where 5: "v4 = dd @ v5" "dd \<in> lang dayOfMonthPattern"
      "v5 \<in> lang (seqs [Rep Space 1 None, yearPattern, timePattern])"
    by blast
  from lang_seqs_ConsD [OF 5(3)] obtain s3 v6 where 6: "v5 = s3 @ v6" "s3 \<in> lang (Rep Space 1 None)"
      "v6 \<in> lang (seqs [yearPattern, timePattern])"
    by blast
  from lang_seqs_ConsD [OF 6(3)] obtain yy t where 7: "v6 = yy @ t" "yy \<in> lang yearPattern"
      "t \<in> lang (seqs [timePattern])"
    by blast
  have e: "w = dn @ s1 @ mn @ s2 @ dd @ s3 @ yy @ t"
    using 1(1) 2(1) 3(1) 4(1) 5(1) 6(1) 7(1) by simp
  have d: "dn \<in> set dayNames" "mn \<in> set monthNames"
    using 1(2) 3(2) unfolding lang_dayPattern lang_monthPattern by simp_all
  have sp: "spaces s1" "spaces s2" "spaces s3"
    using 2(2) 4(2) 6(2) unfolding lang_spaces by simp_all
  have dg: "digits dd \<and> (length dd = 1 \<or> length dd = 2)" "digits yy \<and> length yy = 4"
    using 5(2) 7(2)
    unfolding dayOfMonthPattern_def yearPattern_def lang.simps(6) lang_day_digits lang_year_digits
    by simp_all
  have tm: "t = [] \<or> t \<in> timeGrammar"
    using 7(3) unfolding seqs.simps(2) lang_timePattern .
  note f = e d sp dg [THEN conjunct1] dg [THEN conjunct2] tm
  show "w \<in> dateGrammar"
    unfolding dateGrammar_def mem_Collect_eq
    by (intro exI [of _ dn] exI [of _ s1] exI [of _ mn] exI [of _ s2] exI [of _ dd]
        exI [of _ s3] exI [of _ yy] exI [of _ t] conjI) (rule f)+
next
  fix w
  assume "w \<in> dateGrammar"
  then obtain dn s1 mn s2 dd s3 yy t where e: "w = dn @ s1 @ mn @ s2 @ dd @ s3 @ yy @ t"
    and p: "dn \<in> set dayNames" "spaces s1" "mn \<in> set monthNames" "spaces s2"
      "digits dd" "length dd = 1 \<or> length dd = 2" "spaces s3" "digits yy" "length yy = 4"
      "t = [] \<or> t \<in> timeGrammar"
    unfolding dateGrammar_def by blast
  have m1: "dn \<in> lang dayPattern" "mn \<in> lang monthPattern"
    using p(1,3) unfolding lang_dayPattern lang_monthPattern by simp_all
  have m2: "s1 \<in> lang (Rep Space 1 None)" "s2 \<in> lang (Rep Space 1 None)"
      "s3 \<in> lang (Rep Space 1 None)"
    using p(2,4,7) unfolding lang_spaces by simp_all
  have m3: "dd \<in> lang dayOfMonthPattern" "yy \<in> lang yearPattern"
    using p(5,6,8,9)
    unfolding dayOfMonthPattern_def yearPattern_def lang.simps(6) lang_day_digits lang_year_digits
    by simp_all
  have m4: "t \<in> lang (seqs [timePattern])"
    using p(10) unfolding seqs.simps(2) lang_timePattern .
  note I = lang_seqs_ConsI
  have "dn @ s1 @ mn @ s2 @ dd @ s3 @ yy @ t
      \<in> lang (seqs [dayPattern, Rep Space 1 None, monthPattern, Rep Space 1 None,
           dayOfMonthPattern, Rep Space 1 None, yearPattern, timePattern])"
    by (intro I m1 m2 m3 m4)
  then show "w \<in> lang (createDateRegex format)"
    by (simp only: createDateRegex_def e)
qed

section \<open>The captures of a date match\<close>

lemma ms_seqs_ConsD:
  "(c, r) \<in> set (ms (seqs (a # a' # rs)) s) \<Longrightarrow>
     \<exists>c1 r1 c2. (c1, r1) \<in> set (ms a s) \<and> (c2, r) \<in> set (ms (seqs (a' # rs)) r1) \<and> c = c1 @ c2"
  unfolding seqs.simps(3) ms_Seq_iff .

lemma ngroups_alts: "ngroups (alts ws) = 0"
  by (induction ws rule: alts.induct) simp_all

lemma ms_Group_leaf:
  assumes "ngroups a = 0" and "(c, r) \<in> set (ms (Group a) s)"
  shows "\<exists>w. c = [Some w] \<and> w \<in> lang a \<and> s = w @ r"
proof -
  from assms(2) obtain c' w where g: "(c', r) \<in> set (ms a s)" "c = Some w # c'" "w \<in> lang a"
      "s = w @ r"
    by (rule ms_Group_elim)
  from ms_no_groups [OF assms(1) g(1)] g show ?thesis
    by simp
qed

lemma ms_Rep_captures: "(c, r) \<in> set (ms (Rep cl lo hi) s) \<Longrightarrow> c = []"
  unfolding ms_Rep_iff by simp

lemma ms_Lit_captures: "(c, r) \<in> set (ms (Lit w) s) \<Longrightarrow> c = []"
  unfolding ms_Lit_iff by simp

lemma time_captures:
  assumes "(c, r) \<in> set (ms timePattern s)"
  shows "\<exists>hh mi. c = [hh, mi]
            \<and> (\<forall>h. hh = Some h \<longrightarrow> digits h \<and> h \<noteq> [] \<and> length h \<le> 2)
            \<and> (\<forall>m. mi = Some m \<longrightarrow> digits m \<and> m \<noteq> [] \<and> length m \<le> 2)"
proof -
  let ?inner = "seqs [Rep Space 1 None, Group (Rep Digit 1 (Some 2)), Lit '':'',
                      Group (Rep Digit 2 (Some 2))]"
  from assms consider "(c, r) \<in> set (ms ?inner s)" | "c = replicate (ngroups ?inner) None"
    unfolding timePattern_def ms_Opt_iff by blast
  then show ?thesis
  proof cases
    case 1
    from ms_seqs_ConsD [OF 1] obtain c1 r1 c2 where a: "(c1, r1) \<in> set (ms (Rep Space 1 None) s)"
        "(c2, r) \<in> set (ms (seqs [Group (Rep Digit 1 (Some 2)), Lit '':'',
                      Group (Rep Digit 2 (Some 2))]) r1)" "c = c1 @ c2"
      by blast
    from ms_seqs_ConsD [OF a(2)] obtain c3 r2 c4
      where b: "(c3, r2) \<in> set (ms (Group (Rep Digit 1 (Some 2))) r1)"
        "(c4, r) \<in> set (ms (seqs [Lit '':'', Group (Rep Digit 2 (Some 2))]) r2)" "c2 = c3 @ c4"
      by blast
    from ms_seqs_ConsD [OF b(2)] obtain c5 r3 c6
      where d: "(c5, r3) \<in> set (ms (Lit '':'') r2)"
        "(c6, r) \<in> set (ms (seqs [Group (Rep Digit 2 (Some 2))]) r3)" "c4 = c5 @ c6"
      by blast
    from ms_Group_leaf [OF _ b(1)] obtain h where h: "c3 = [Some h]" "h \<in> lang (Rep Digit 1 (Some 2))"
      by auto
    from d(2) have "(c6, r) \<in> set (ms (Group (Rep Digit 2 (Some 2))) r3)"
      by (simp only: seqs.simps(2))
    from ms_Group_leaf [OF _ this] obtain m where m: "c6 = [Some m]" "m \<in> lang (Rep Digit 2 (Some 2))"
      by auto
    have "c = [Some h, Some m]"
      using a(3) b(3) d(3) h(1) m(1) ms_Rep_captures [OF a(1)] ms_Lit_captures [OF d(1)]
      by simp
    moreover have "digits h \<and> h \<noteq> [] \<and> length h \<le> 2" "digits m \<and> m \<noteq> [] \<and> length m \<le> 2"
      using h(2) m(2) unfolding lang_day_digits lang_minute_digits by auto
    ultimately show ?thesis
      by simp
  next
    case 2
    then have "c = [None, None]"
      by (simp add: numeral_2_eq_2)
    then show ?thesis
      by simp
  qed
qed

lemma date_captures:
  assumes "(c, r) \<in> set (ms (createDateRegex format) s)"
  shows "\<exists>dn mn dd yy hh mi. c = [Some dn, Some mn, Some dd, Some yy, hh, mi]
           \<and> mn \<in> set monthNames \<and> digits dd \<and> dd \<noteq> [] \<and> digits yy \<and> yy \<noteq> []
           \<and> (length dd = 1 \<or> length dd = 2) \<and> length yy = 4
           \<and> (\<forall>h. hh = Some h \<longrightarrow> digits h \<and> h \<noteq> [] \<and> length h \<le> 2)
           \<and> (\<forall>m. mi = Some m \<longrightarrow> digits m \<and> m \<noteq> [] \<and> length m \<le> 2)"
proof -
  from assms have 0: "(c, r) \<in> set (ms (seqs [dayPattern, Rep Space 1 None, monthPattern,
      Rep Space 1 None, dayOfMonthPattern, Rep Space 1 None, yearPattern, timePattern]) s)"
    by (simp only: createDateRegex_def)
  from ms_seqs_ConsD [OF 0] obtain a1 r1 b1 where 1: "(a1, r1) \<in> set (ms dayPattern s)"
      "(b1, r) \<in> set (ms (seqs [Rep Space 1 None, monthPattern,
      Rep Space 1 None, dayOfMonthPattern, Rep Space 1 None, yearPattern, timePattern]) r1)"
      "c = a1 @ b1"
    by blast
  from ms_seqs_ConsD [OF 1(2)] obtain a2 r2 b2 where 2: "(a2, r2) \<in> set (ms (Rep Space 1 None) r1)"
      "(b2, r) \<in> set (ms (seqs [monthPattern,
      Rep Space 1 None, dayOfMonthPattern, Rep Space 1 None, yearPattern, timePattern]) r2)"
      "b1 = a2 @ b2"
    by blast
  from ms_seqs_ConsD [OF 2(2)] obtain a3 r3 b3 where 3: "(a3, r3) \<in> set (ms monthPattern r2)"
      "(b3, r) \<in> set (ms (seqs [Rep Space 1 None, dayOfMonthPattern, Rep Space 1 None,
      yearPattern, timePattern]) r3)"
      "b2 = a3 @ b3"
    by blast
  from ms_seqs_ConsD [OF 3(2)] obtain a4 r4 b4 where 4: "(a4, r4) \<in> set (ms (Rep Space 1 None) r3)"
      "(b4, r) \<in> set (ms (seqs [dayOfMonthPattern, Rep Space 1 None,
      yearPattern, timePattern]) r4)"
      "b3 = a4 @ b4"
    by blast
  from ms_seqs_ConsD [OF 4(2)] obtain a5 r5 b5 where 5: "(a5, r5) \<in> set (ms dayOfMonthPattern r4)"
      "(b5, r) \<in> set (ms (seqs [Rep Space 1 None, yearPattern, timePattern]) r5)"
      "b4 = a5 @ b5"
    by blast
  from ms_seqs_ConsD [OF 5(2)] obtain a6 r6 b6 where 6: "(a6, r6) \<in> set (ms (Rep Space 1 None) r5)"
      "(b6, r) \<in> set (ms (seqs [yearPattern, timePattern]) r6)"
      "b5 = a6 @ b6"
    by blast
  from ms_seqs_ConsD [OF 6(2)] obtain a7 r7 b7 where 7: "(a7, r7) \<in> set (ms yearPattern r6)"
      "(b7, r) \<in> set (ms (seqs [timePattern]) r7)"
      "b6 = a7 @ b7"
    by blast
  from 7(2) have 8: "(b7, r) \<in> set (ms timePattern r7)"
    by (simp only: seqs.simps(2))
  from ms_Group_leaf [OF ngroups_alts 1(1) [unfolded dayPattern_def]]
  obtain dn where dn: "a1 = [Some dn]"
    by blast
  from ms_Group_leaf [OF ngroups_alts 3(1) [unfolded monthPattern_def]]
  obtain mn where mn: "a3 = [Some mn]" "mn \<in> lang (alts monthNames)"
    by blast
  from ms_Group_leaf [OF _ 5(1) [unfolded dayOfMonthPattern_def]]
  obtain dd where dd: "a5 = [Some dd]" "dd \<in> lang (Rep Digit 1 (Some 2))"
    by auto
  from ms_Group_leaf [OF _ 7(1) [unfolded yearPattern_def]]
  obtain yy where yy: "a7 = [Some yy]" "yy \<in> lang (Rep Digit 4 (Some 4))"
    by auto
  from time_captures [OF 8] obtain hh mi where t: "b7 = [hh, mi]"
      "\<forall>h. hh = Some h \<longrightarrow> digits h \<and> h \<noteq> [] \<and> length h \<le> 2"
      "\<forall>m. mi = Some m \<longrightarrow> digits m \<and> m \<noteq> [] \<and> length m \<le> 2"
    by blast
  have c: "c = [Some dn, Some mn, Some dd, Some yy, hh, mi]"
    using 1(3) 2(3) 3(3) 4(3) 5(3) 6(3) 7(3) dn mn(1) dd(1) yy(1) t(1)
      ms_Rep_captures [OF 2(1)] ms_Rep_captures [OF 4(1)] ms_Rep_captures [OF 6(1)]
    by simp
  have m: "mn \<in> set monthNames"
    using mn(2) lang_monthPattern by (simp add: monthPattern_def)
  have d: "digits dd" "dd \<noteq> []" "digits yy" "yy \<noteq> []"
      "length dd = 1 \<or> length dd = 2" "length yy = 4"
    using dd(2) yy(2) unfolding lang_day_digits lang_year_digits by auto
  from c m d t(2,3) show ?thesis
    by blast
qed

section \<open>The date parser\<close>

lemma indexOfFrom_ge: "x \<in> set xs \<Longrightarrow> i \<le> indexOfFrom i xs x"
proof (induction xs arbitrary: i)
  case Nil
  then show ?case by simp
next
  case (Cons y ys)
  show ?case
  proof (cases "y = x")
    case True
    then show ?thesis by simp
  next
    case False
    with Cons.prems have "x \<in> set ys" by simp
    from Cons.IH [OF this, of "i + 1"] False show ?thesis by simp
  qed
qed

lemma indexOfFrom_less: "x \<in> set xs \<Longrightarrow> indexOfFrom i xs x < i + int (length xs)"
proof (induction xs arbitrary: i)
  case Nil
  then show ?case by simp
next
  case (Cons y ys)
  show ?case
  proof (cases "y = x")
    case True
    then show ?thesis by simp
  next
    case False
    with Cons.prems have "x \<in> set ys" by simp
    from Cons.IH [OF this, of "i + 1"] False show ?thesis by simp
  qed
qed

lemma indexOf_month: "mn \<in> set monthNames \<Longrightarrow> 0 \<le> indexOf monthNames mn \<and> indexOf monthNames mn \<le> 11"
  using indexOfFrom_ge [of mn monthNames 0] indexOfFrom_less [of mn monthNames 0]
  by (simp add: indexOf_def monthNames_def)

lemma digitVal_range: "isDigit c \<Longrightarrow> 0 \<le> digitVal c \<and> digitVal c \<le> 9"
  by (auto simp: isDigit_def digitVal_def)

lemma foldl_digits_bound:
  "list_all isDigit ds \<Longrightarrow> 0 \<le> a \<Longrightarrow>
     0 \<le> foldl (\<lambda>a c. 10 * a + digitVal c) a ds
     \<and> foldl (\<lambda>a c. 10 * a + digitVal c) a ds < (a + 1) * 10 ^ length ds"
proof (induction ds arbitrary: a)
  case Nil
  then show ?case by simp
next
  case (Cons c ds)
  from Cons.prems have c: "0 \<le> digitVal c" "digitVal c \<le> 9" and ds: "list_all isDigit ds"
    using digitVal_range [of c] by simp_all
  let ?a = "10 * a + digitVal c"
  from c Cons.prems(2) have a: "0 \<le> ?a" "?a + 1 \<le> 10 * (a + 1)"
    by simp_all
  from Cons.IH [OF ds a(1)]
  have ih: "0 \<le> foldl (\<lambda>a c. 10 * a + digitVal c) ?a ds"
      "foldl (\<lambda>a c. 10 * a + digitVal c) ?a ds < (?a + 1) * 10 ^ length ds"
    by simp_all
  have "(?a + 1) * 10 ^ length ds \<le> (10 * (a + 1)) * 10 ^ length ds"
    by (rule mult_right_mono [OF a(2)]) simp
  with ih(2) have "foldl (\<lambda>a c. 10 * a + digitVal c) ?a ds < (10 * (a + 1)) * 10 ^ length ds"
    by (rule less_le_trans)
  also have "(10 * (a + 1)) * 10 ^ length ds = (a + 1) * 10 ^ length (c # ds)"
    by simp
  finally show ?case
    using ih(1) by simp
qed

lemma parseInt_digits:
  assumes "digits ds" "ds \<noteq> []"
  shows "\<exists>v. parseInt ds = Some v \<and> 0 \<le> v \<and> v < 10 ^ length ds"
proof -
  from assms(1) have t: "takeWhile isDigit ds = ds"
    by (simp add: digits_def list_all_iff takeWhile_eq_all_conv)
  from foldl_digits_bound [of ds 0] assms(1)
  have "0 \<le> foldl (\<lambda>a c. 10 * a + digitVal c) 0 ds"
      "foldl (\<lambda>a c. 10 * a + digitVal c) 0 ds < 10 ^ length ds"
    by (simp_all add: digits_def)
  then show ?thesis
    unfolding parseInt_def Let_def t using assms(2) by simp
qed

lemma optional_field:
  assumes "\<forall>h. hh = Some h \<longrightarrow> digits h \<and> h \<noteq> [] \<and> length h \<le> 2"
  shows "\<exists>v. (case hh of None \<Rightarrow> Some 0 | Some h \<Rightarrow> if h = [] then Some 0 else parseInt h) = Some v
           \<and> 0 \<le> v \<and> v \<le> 99"
proof (cases hh)
  case None
  then show ?thesis by simp
next
  case (Some h)
  with assms have h: "digits h" "h \<noteq> []" "length h \<le> 2"
    by simp_all
  from parseInt_digits [OF h(1,2)] obtain v where v: "parseInt h = Some v" "0 \<le> v"
      "v < 10 ^ length h"
    by blast
  have "(10::int) ^ length h \<le> 10 ^ 2"
    by (rule power_increasing [OF h(3)]) simp
  with v Some h(2) show ?thesis
    by simp
qed


lemma stringMatch_None_iff:
  "stringMatch (createDateRegex format) s = None \<longleftrightarrow> \<not> containsDate s"
  unfolding stringMatch_def search_None_lang lang_createDateRegex containsDate_def ..

lemma parse_fields:
  assumes "stringMatch (createDateRegex format) s = Some m"
  shows "\<exists>y mo d h mi. parseDateString s format = Some (Date (newDate y mo d h mi))
    \<and> 0 \<le> y \<and> y \<le> 9999 \<and> 0 \<le> mo \<and> mo \<le> 11 \<and> 0 \<le> d \<and> d \<le> 99
    \<and> 0 \<le> h \<and> h \<le> 99 \<and> 0 \<le> mi \<and> mi \<le> 99"
proof -
  from assms have "search (createDateRegex format) 0 s = Some m"
    by (simp add: stringMatch_def)
  from search_Some_lang [OF this] obtain r
    where "(captures m, r) \<in> set (ms (createDateRegex format) (drop (index m - 0) s))"
    by blast
  from date_captures [OF this] obtain dn mn dd yy hh mi
    where c: "captures m = [Some dn, Some mn, Some dd, Some yy, hh, mi]"
      and p: "mn \<in> set monthNames" "digits dd" "dd \<noteq> []" "digits yy" "yy \<noteq> []"
        "length dd = 1 \<or> length dd = 2" "length yy = 4"
        "\<forall>h. hh = Some h \<longrightarrow> digits h \<and> h \<noteq> [] \<and> length h \<le> 2"
        "\<forall>m. mi = Some m \<longrightarrow> digits m \<and> m \<noteq> [] \<and> length m \<le> 2"
    by blast
  have g: "group m 2 = Some mn" "group m 3 = Some dd" "group m 4 = Some yy"
      "group m 5 = hh" "group m 6 = mi"
    by (simp_all add: group_def c)
  from indexOf_month [OF p(1)] have ix: "indexOf monthNames mn \<noteq> - 1"
      "0 \<le> indexOf monthNames mn" "indexOf monthNames mn \<le> 11"
    by simp_all
  from parseInt_digits [OF p(2,3)] obtain dv where dv: "parseInt dd = Some dv" "0 \<le> dv"
      "dv < 10 ^ length dd"
    by blast
  from p(6) have "(10::int) ^ length dd \<le> 100"
    by auto
  with dv(3) have dv99: "dv \<le> 99"
    by simp
  from parseInt_digits [OF p(4,5)] obtain yv where yv: "parseInt yy = Some yv" "0 \<le> yv"
      "yv < 10 ^ length yy"
    by blast
  from yv(3) p(7) have yv9999: "yv \<le> 9999"
    by simp
  from optional_field [OF p(8)] obtain hv
    where hv: "(case hh of None \<Rightarrow> Some 0 | Some h \<Rightarrow> if h = [] then Some 0 else parseInt h) = Some hv"
      "0 \<le> hv" "hv \<le> 99"
    by blast
  from optional_field [OF p(9)] obtain mv
    where mv: "(case mi of None \<Rightarrow> Some 0 | Some m \<Rightarrow> if m = [] then Some 0 else parseInt m) = Some mv"
      "0 \<le> mv" "mv \<le> 99"
    by blast
  have "parseDateString s format = Some (Date (newDate yv (indexOf monthNames mn) dv hv mv))"
    unfolding parseDateString_def createDateRegex_def [symmetric, of format] assms Let_def
    using ix(1) dv(1) yv(1) hv(1) mv(1) by (simp add: g)
  with ix(2,3) dv(2) dv99 yv(2) yv9999 hv(2,3) mv(2,3) show ?thesis
    by blast
qed

lemma parse_of_match:
  assumes "stringMatch (createDateRegex format) s = Some m"
  shows "\<exists>d. parseDateString s format = Some (Date d)"
  using parse_fields [OF assms] by blast



section \<open>The scanning loop\<close>

lemma exec_Some:
  assumes "exec re text li = Some m"
  shows "li \<le> index m \<and> endOf m \<le> length text \<and> matched m \<in> lang re
    \<and> matched m = take (length (matched m)) (drop (index m) text)
    \<and> (\<exists>r. (captures m, r) \<in> set (ms re (drop (index m) text)))"
proof -
  from assms have l: "li \<le> length text" and s: "search re li (drop li text) = Some m"
    by (simp_all add: exec_def split: if_splits)
  from search_Some_lang [OF s] obtain r where p: "matched m \<in> lang re" "li \<le> index m"
      "index m - li + length (matched m) \<le> length (drop li text)"
      "matched m = take (length (matched m)) (drop (index m - li) (drop li text))"
      "(captures m, r) \<in> set (ms re (drop (index m - li) (drop li text)))"
    by blast
  from p(2) have d: "drop (index m - li) (drop li text) = drop (index m) text"
    by simp
  from p(2,3) l have "endOf m \<le> length text"
    by (simp add: endOf_def)
  with p d show ?thesis
    by auto
qed

lemma exec_nonempty:
  assumes "exec re text li = Some m" "0 < minlen re"
  shows "index m < endOf m" "li < endOf m"
proof -
  from exec_Some [OF assms(1)] have "matched m \<in> lang re" "li \<le> index m"
    by simp_all
  moreover from lang_minlen [of "matched m" re] assms(2) this(1) have "0 < length (matched m)"
    by linarith
  ultimately show "index m < endOf m" "li < endOf m"
    unfolding endOf_def by linarith+
qed

lemma exec_induct:
  assumes "\<And>li. (\<And>m. exec re tx li = Some m \<Longrightarrow> li < endOf m \<Longrightarrow> P (endOf m)) \<Longrightarrow> P li"
  shows "P li"
proof (induction "Suc (length tx) - li" arbitrary: li rule: less_induct)
  case less
  show ?case
  proof (rule assms)
    fix m
    assume e: "exec re tx li = Some m" and g: "li < endOf m"
    from e have "li \<le> length tx"
      by (simp add: exec_def split: if_splits)
    with g have "Suc (length tx) - endOf m < Suc (length tx) - li"
      by simp
    then show "P (endOf m)"
      by (rule less)
  qed
qed

lemma execLoop_None: "exec re text li = None \<Longrightarrow> execLoop re text body li acc = Inr acc"
  by (subst execLoop.simps) simp

lemma execLoop_Some:
  "exec re text li = Some m \<Longrightarrow>
     execLoop re text body li acc =
       (case body m acc of
          Inl e \<Rightarrow> Inl e
        | Inr acc' \<Rightarrow> if endOf m \<le> li then Inl Diverges else execLoop re text body (endOf m) acc')"
  by (subst execLoop.simps) (simp add: endOf_def Let_def split: sum.splits)

lemma collect_acc:
  "execLoop re text (\<lambda>m acc. Inr (acc @ [m])) li acc
     = map_sum id ((@) acc) (occurrencesFrom re text li)"
proof (induction li arbitrary: acc rule: exec_induct [where re = re and tx = "text"])
  case (1 li)
  show ?case
  proof (cases "exec re text li")
    case None
    then show ?thesis
      by (simp add: occurrencesFrom_def execLoop_None)
  next
    case (Some m)
    show ?thesis
    proof (cases "endOf m \<le> li")
      case True
      with Some show ?thesis
        by (simp add: occurrencesFrom_def execLoop_Some)
    next
      case False
      then have g: "li < endOf m"
        by simp
      note ih = 1 [OF Some g]
      have "execLoop re text (\<lambda>m acc. Inr (acc @ [m])) li acc
          = execLoop re text (\<lambda>m acc. Inr (acc @ [m])) (endOf m) (acc @ [m])"
        using Some False by (simp add: execLoop_Some)
      moreover have "occurrencesFrom re text li
          = execLoop re text (\<lambda>m acc. Inr (acc @ [m])) (endOf m) [m]"
        using Some False by (simp add: occurrencesFrom_def execLoop_Some)
      ultimately show ?thesis
        unfolding ih [of "acc @ [m]"] ih [of "[m]"]
        by (cases "occurrencesFrom re text (endOf m)") simp_all
    qed
  qed
qed

lemma occurrencesFrom_unfold:
  "occurrencesFrom re text li =
     (case exec re text li of
        None \<Rightarrow> Inr []
      | Some m \<Rightarrow> if endOf m \<le> li then Inl Diverges
                  else map_sum id ((#) m) (occurrencesFrom re text (endOf m)))"
proof (cases "exec re text li")
  case None
  then show ?thesis
    by (simp add: occurrencesFrom_def execLoop_None)
next
  case (Some m)
  have "occurrencesFrom re text li
      = (if endOf m \<le> li then Inl Diverges
         else execLoop re text (\<lambda>m acc. Inr (acc @ [m])) (endOf m) [m])"
    using Some by (simp add: occurrencesFrom_def execLoop_Some)
  also have "\<dots> = (if endOf m \<le> li then Inl Diverges
         else map_sum id ((#) m) (occurrencesFrom re text (endOf m)))"
    by (cases "occurrencesFrom re text (endOf m)") (simp_all add: collect_acc)
  finally show ?thesis
    using Some by simp
qed

lemma occurrences_from_0: "occurrences re text = occurrencesFrom re text 0"
  by (simp add: occurrences_def occurrencesFrom_def)

lemma loop_fold:
  "occurrencesFrom re text li = Inr found \<Longrightarrow>
     execLoop re text body li acc = foldE body found acc"
proof (induction li arbitrary: found acc rule: exec_induct [where re = re and tx = "text"])
  case (1 li)
  show ?case
  proof (cases "exec re text li")
    case None
    with 1(2) show ?thesis
      by (simp add: occurrencesFrom_unfold [of re "text" li] execLoop_None)
  next
    case (Some m)
    from 1(2) Some have g: "li < endOf m"
      by (simp add: occurrencesFrom_unfold [of re "text" li] split: if_splits)
    from 1(2) Some g obtain rest where r: "occurrencesFrom re text (endOf m) = Inr rest"
        "found = m # rest"
      by (cases "occurrencesFrom re text (endOf m)")
         (simp_all add: occurrencesFrom_unfold [of re "text" li])
    show ?thesis
    proof (cases "body m acc")
      case (Inl e)
      with Some r show ?thesis
        by (simp add: execLoop_Some)
    next
      case (Inr acc')
      with Some g r 1(1) [OF Some g r(1), of acc'] show ?thesis
        by (simp add: execLoop_Some)
    qed
  qed
qed

lemma occurrences_total:
  assumes "0 < minlen re"
  shows "\<exists>found. occurrencesFrom re text li = Inr found"
proof (induction li rule: exec_induct [where re = re and tx = "text"])
  case (1 li)
  show ?case
  proof (cases "exec re text li")
    case None
    then show ?thesis
      by (simp add: occurrencesFrom_unfold [of re "text" li])
  next
    case (Some m)
    from exec_nonempty(2) [OF Some assms] have g: "li < endOf m" .
    from 1 [OF Some g] obtain rest where "occurrencesFrom re text (endOf m) = Inr rest"
      by blast
    with Some g show ?thesis
      by (simp add: occurrencesFrom_unfold [of re "text" li])
  qed
qed

lemma occurrences_props:
  assumes "0 < minlen re"
  shows "occurrencesFrom re text li = Inr found \<Longrightarrow>
     sorted_wrt (\<lambda>a b. endOf a \<le> index b) found
     \<and> (\<forall>m \<in> set found. li \<le> index m \<and> index m < endOf m \<and> endOf m \<le> length text
           \<and> matched m \<in> lang re
           \<and> matched m = take (length (matched m)) (drop (index m) text)
           \<and> (\<exists>r. (captures m, r) \<in> set (ms re (drop (index m) text))))"
proof (induction li arbitrary: found rule: exec_induct [where re = re and tx = "text"])
  case (1 li)
  show ?case
  proof (cases "exec re text li")
    case None
    with 1(2) show ?thesis
      by (simp add: occurrencesFrom_unfold [of re "text" li])
  next
    case (Some m)
    from exec_nonempty [OF Some assms] have g: "index m < endOf m" "li < endOf m" .
    from 1(2) Some g obtain rest where r: "occurrencesFrom re text (endOf m) = Inr rest"
        "found = m # rest"
      by (cases "occurrencesFrom re text (endOf m)")
         (simp_all add: occurrencesFrom_unfold [of re "text" li])
    note ih = 1(1) [OF Some g(2) r(1)]
    from ih have s: "sorted_wrt (\<lambda>a b. endOf a \<le> index b) rest"
      and a: "\<forall>x \<in> set rest. endOf m \<le> index x"
      by simp_all
    have "\<forall>x \<in> set rest. li \<le> index x"
      using a g(2) by auto
    with ih exec_Some [OF Some] g s a show ?thesis
      unfolding r(2) by simp
  qed
qed

section \<open>The occurrences of the date patterns\<close>

lemma minlen_createDateRegex: "minlen (createDateRegex format) = 14"
  by (simp add: createDateRegex_def dayPattern_def monthPattern_def dayOfMonthPattern_def
      yearPattern_def timePattern_def dayNames_def monthNames_def)

lemma minlen_createBracketedDateRegex: "minlen (createBracketedDateRegex format) = 18"
  by (simp add: createBracketedDateRegex_def minlen_createDateRegex)

lemma createDateRegex_format: "createDateRegex format = createDateRegex format'"
  by (simp add: createDateRegex_def)

lemma createBracketedDateRegex_format:
  "createBracketedDateRegex format = createBracketedDateRegex format'"
  by (simp add: createBracketedDateRegex_def createDateRegex_def)

lemma plain_occurrence:
  assumes "occurrences (createDateRegex format) text = Inr found" "m \<in> set found"
  shows "matched m \<in> dateGrammar \<and> index m < endOf m \<and> endOf m \<le> length text
    \<and> matched m = take (length (matched m)) (drop (index m) text)
    \<and> (\<exists>dn mn dd yy hh mi. captures m = [Some dn, Some mn, Some dd, Some yy, hh, mi]
          \<and> digits dd \<and> (length dd = 1 \<or> length dd = 2) \<and> digits yy \<and> length yy = 4)"
proof -
  have pos: "0 < minlen (createDateRegex format)"
    by (simp add: minlen_createDateRegex)
  from assms(1) have "occurrencesFrom (createDateRegex format) text 0 = Inr found"
    by (simp add: occurrences_from_0)
  from occurrences_props [OF pos this] assms(2) obtain r
    where p: "index m < endOf m" "endOf m \<le> length text"
      "matched m \<in> lang (createDateRegex format)"
      "matched m = take (length (matched m)) (drop (index m) text)"
      "(captures m, r) \<in> set (ms (createDateRegex format) (drop (index m) text))"
    by blast
  from date_captures [OF p(5)] obtain dn mn dd yy hh mi
    where "captures m = [Some dn, Some mn, Some dd, Some yy, hh, mi]" "digits dd"
      "length dd = 1 \<or> length dd = 2" "digits yy" "length yy = 4"
    by blast
  with p show ?thesis
    unfolding lang_createDateRegex by blast
qed

text \<open>
  Claim C5, as stated: on a text with a five-digit run in the year position the plain
  matcher reports no occurrence that takes the first four digits and leaves the fifth.
  It does report one: nothing in the pattern looks at what follows the year.
\<close>

theorem C5_five_digit_year_counterexample:
  "occurrences (createDateRegex DEFAULT_dateFormat) ''Fri Aug 29 20255''
     = Inr [\<lparr>index = 0, matched = ''Fri Aug 29 2025'',
             captures = [Some ''Fri'', Some ''Aug'', Some ''29'', Some ''2025'', None, None]\<rparr>]"
  by code_simp

text \<open>
  Claim C5, amended: the scan of the plain matcher always ends; every occurrence it
  reports is a part of the text that conforms to the grammar, with a day of one or two
  digits between white space and a year of exactly four digits, whatever follows the
  year. On "Fri Aug 29 20255" the occurrence is "Fri Aug 29 2025", the fifth digit left
  outside; a third digit in the day position ("Fri Aug 299 2025") gives no occurrence.
\<close>

theorem C5_year_not_anchored:
  "(\<exists>found. occurrences (createDateRegex format) text = Inr found)
   \<and> (\<forall>found m. occurrences (createDateRegex format) text = Inr found \<and> m \<in> set found \<longrightarrow>
         matched m \<in> dateGrammar \<and> index m < endOf m \<and> endOf m \<le> length text
         \<and> matched m = take (length (matched m)) (drop (index m) text)
         \<and> (\<exists>dn mn dd yy hh mi. captures m = [Some dn, Some mn, Some dd, Some yy, hh, mi]
               \<and> digits dd \<and> (length dd = 1 \<or> length dd = 2) \<and> digits yy \<and> length yy = 4))
   \<and> occurrences (createDateRegex format) ''Fri Aug 29 20255''
       = Inr [\<lparr>index = 0, matched = ''Fri Aug 29 2025'',
               captures = [Some ''Fri'', Some ''Aug'', Some ''29'', Some ''2025'', None, None]\<rparr>]
   \<and> occurrences (createDateRegex format) ''Fri Aug 299 2025'' = Inr []"
proof -
  have pos: "0 < minlen (createDateRegex format)"
    by (simp add: minlen_createDateRegex)
  have a: "\<exists>found. occurrences (createDateRegex format) text = Inr found"
    unfolding occurrences_from_0 by (rule occurrences_total [OF pos])
  have b: "occurrences (createDateRegex DEFAULT_dateFormat) ''Fri Aug 29 20255''
       = Inr [\<lparr>index = 0, matched = ''Fri Aug 29 2025'',
               captures = [Some ''Fri'', Some ''Aug'', Some ''29'', Some ''2025'', None, None]\<rparr>]"
    by code_simp
  have c: "occurrences (createDateRegex DEFAULT_dateFormat) ''Fri Aug 299 2025'' = Inr []"
    by code_simp
  note f = createDateRegex_format [of format DEFAULT_dateFormat]
  from a b c plain_occurrence [of format "text"] show ?thesis
    unfolding f by blast
qed

theorem C5_year_not_anchored_witness:
  "''Fri Aug 29 2025'' \<in> dateGrammar
   \<and> take 15 ''Fri Aug 29 20255'' = ''Fri Aug 29 2025''
   \<and> occurrences (createDateRegex DEFAULT_dateFormat) ''Fri Aug 29 20255''
       = Inr [\<lparr>index = 0, matched = ''Fri Aug 29 2025'',
               captures = [Some ''Fri'', Some ''Aug'', Some ''29'', Some ''2025'', None, None]\<rparr>]"
proof -
  let ?m = "\<lparr>index = 0, matched = ''Fri Aug 29 2025'',
      captures = [Some ''Fri'', Some ''Aug'', Some ''29'', Some ''2025'', None, None]\<rparr>"
  note t = C5_year_not_anchored [of DEFAULT_dateFormat "''Fri Aug 29 20255''"]
  from t have o: "occurrences (createDateRegex DEFAULT_dateFormat) ''Fri Aug 29 20255'' = Inr [?m]"
    by blast
  from t have "\<forall>found m. occurrences (createDateRegex DEFAULT_dateFormat) ''Fri Aug 29 20255''
        = Inr found \<and> m \<in> set found \<longrightarrow> matched m \<in> dateGrammar"
    by blast
  from this [rule_format, of "[?m]" ?m] o have "matched ?m \<in> dateGrammar"
    by simp
  with o show ?thesis
    by simp
qed

section \<open>The passes of the scan\<close>

lemma bracketed_captures:
  assumes "(c, r) \<in> set (ms (createBracketedDateRegex format) s)"
  shows "\<exists>w c'. c = Some w # c' \<and> w \<in> dateGrammar"
proof -
  from assms have 0: "(c, r) \<in> set (ms (seqs [Lit ''[['', Group (createDateRegex format),
      Lit '']]'']) s)"
    by (simp only: createBracketedDateRegex_def)
  from ms_seqs_ConsD [OF 0] obtain c1 r1 c2 where 1: "(c1, r1) \<in> set (ms (Lit ''[['') s)"
      "(c2, r) \<in> set (ms (seqs [Group (createDateRegex format), Lit '']]'']) r1)" "c = c1 @ c2"
    by blast
  from ms_seqs_ConsD [OF 1(2)] obtain c3 r2 c4
    where 2: "(c3, r2) \<in> set (ms (Group (createDateRegex format)) r1)" "c2 = c3 @ c4"
    by blast
  from 2(1) obtain c' w where g: "c3 = Some w # c'" "w \<in> lang (createDateRegex format)"
    by (rule ms_Group_elim)
  from 1(3) 2(2) g ms_Lit_captures [OF 1(1)] show ?thesis
    unfolding lang_createDateRegex by simp
qed

lemma bracketed_occurrence:
  assumes "occurrencesFrom (createBracketedDateRegex format) text 0 = Inr found" "m \<in> set found"
  shows "\<exists>w. group m 1 = Some w \<and> w \<in> dateGrammar"
proof -
  have pos: "0 < minlen (createBracketedDateRegex format)"
    by (simp add: minlen_createBracketedDateRegex)
  from occurrences_props [OF pos assms(1)] assms(2) obtain r
    where "(captures m, r) \<in> set (ms (createBracketedDateRegex format) (drop (index m) text))"
    by blast
  from bracketed_captures [OF this] show ?thesis
    by (auto simp: group_def)
qed

lemma parse_of_grammar:
  assumes "w \<in> dateGrammar"
  shows "\<exists>d. parseDateString w format = Some (Date d)"
proof -
  have "containsDate w"
    unfolding containsDate_def using assms by (intro exI [of _ "[]"] exI [of _ w]) simp
  then have "stringMatch (createDateRegex format) w \<noteq> None"
    by (simp add: stringMatch_None_iff)
  then obtain m where "stringMatch (createDateRegex format) w = Some m"
    by blast
  from parse_of_match [OF this] show ?thesis .
qed

lemma format_reads:
  "snd (formatDateAsHumanReadable format clock s n)
     = (if parseDateString s format = None then n else Suc n)"
  by (simp add: formatDateAsHumanReadable_def Let_def split: option.splits)

lemma bracketed_step:
  assumes "group m 1 = Some ds" "parseDateString ds format \<noteq> None"
  shows "\<exists>E. bracketedBody format clock sel m (decs, n) = Inr (decs @ E, Suc n)
    \<and> (E = [] \<or> (\<exists>h. E = [widgetAt (index m) (matched m) h True,
                            markRange (index m) (endOf m)]))"
proof -
  obtain hr n' where f: "formatDateAsHumanReadable format clock ds n = (hr, n')"
    by (cases "formatDateAsHumanReadable format clock ds n")
  with format_reads [of format clock ds n] assms(2) have n': "n' = Suc n"
    by simp
  from assms(1) have g: "group m (Suc 0) = Some ds"
    by simp
  show ?thesis
    by (auto simp: bracketedBody.simps Let_def g f n' endOf_def)
qed

lemma plain_step:
  assumes "parseDateString (matched m) format \<noteq> None"
  shows "\<exists>E. plainBody format clock sel ranges m (decs, n)
        = Inr (decs @ E, if overlapsAny ranges (index m) (endOf m) then n else Suc n)
    \<and> (E = [] \<or> (\<not> overlapsAny ranges (index m) (endOf m)
          \<and> (\<exists>h. E = [widgetAt (index m) (matched m) h False,
                        markRange (index m) (endOf m)])))"
proof -
  obtain hr n' where f: "formatDateAsHumanReadable format clock (matched m) n = (hr, n')"
    by (cases "formatDateAsHumanReadable format clock (matched m) n")
  with format_reads [of format clock "matched m" n] assms have n': "n' = Suc n"
    by simp
  show ?thesis
    by (auto simp: plainBody.simps Let_def f n' endOf_def)
qed

lemma markSpans_append: "markSpans (xs @ ys) = markSpans xs @ markSpans ys"
  by (simp add: markSpans_def)

lemma markSpans_pair:
  "markSpans [widgetAt i orig h link, markRange i j] = [(i, j)]"
  by (simp add: markSpans_def widgetAt_def markRange_def)

lemma fold_emit:
  assumes step: "\<And>m decs n. m \<in> set found \<Longrightarrow>
      \<exists>E. body m (decs, n) = Inr (decs @ E, n + reads m)
        \<and> (E = [] \<or> (Q m \<and> (\<exists>h. E = [widgetAt (index m) (matched m) h link,
                                       markRange (index m) (endOf m)])))"
    and sorted: "sorted_wrt (\<lambda>a b. endOf a \<le> index b) found"
  shows "\<exists>D. foldE body found (decs, n) = Inr (decs @ D, n + sum_list (map reads found))
    \<and> sorted_wrt (\<lambda>a b. snd a \<le> fst b) (markSpans D)
    \<and> (\<forall>a \<in> set (markSpans D). \<exists>m \<in> set found. Q m \<and> a = spanOf m)
    \<and> (\<forall>d \<in> set D. spec d = Mark
          \<or> (\<exists>m \<in> set found. Q m \<and> (\<exists>h. d = widgetAt (index m) (matched m) h link)))"
  using assms
proof (induction found arbitrary: decs n)
  case Nil
  show ?case
    by (intro exI [of _ "[]"]) (simp add: markSpans_def)
next
  case (Cons m rest)
  from Cons.prems(1) [of m decs n] obtain E
    where E: "body m (decs, n) = Inr (decs @ E, n + reads m)"
      "E = [] \<or> (Q m \<and> (\<exists>h. E = [widgetAt (index m) (matched m) h link,
                                   markRange (index m) (endOf m)]))"
    by auto
  have st: "\<And>m decs n. m \<in> set rest \<Longrightarrow>
      \<exists>E. body m (decs, n) = Inr (decs @ E, n + reads m)
        \<and> (E = [] \<or> (Q m \<and> (\<exists>h. E = [widgetAt (index m) (matched m) h link,
                                       markRange (index m) (endOf m)])))"
    using Cons.prems(1) by simp
  from Cons.prems(2) have so: "sorted_wrt (\<lambda>a b. endOf a \<le> index b) rest"
    and af: "\<forall>x \<in> set rest. endOf m \<le> index x"
    by simp_all
  from Cons.IH [OF st so, of "decs @ E" "n + reads m"] obtain D
    where D: "foldE body rest (decs @ E, n + reads m)
        = Inr ((decs @ E) @ D, n + reads m + sum_list (map reads rest))"
      "sorted_wrt (\<lambda>a b. snd a \<le> fst b) (markSpans D)"
      "\<forall>a \<in> set (markSpans D). \<exists>x \<in> set rest. Q x \<and> a = spanOf x"
      "\<forall>d \<in> set D. spec d = Mark
          \<or> (\<exists>x \<in> set rest. Q x \<and> (\<exists>h. d = widgetAt (index x) (matched x) h link))"
    by blast
  have r: "foldE body (m # rest) (decs, n)
      = Inr (decs @ (E @ D), n + sum_list (map reads (m # rest)))"
    using E(1) D(1) by (simp add: add.assoc)
  have ms: "markSpans E = [] \<or> (Q m \<and> markSpans E = [spanOf m])"
  proof (cases "E = []")
    case True
    then show ?thesis
      by (simp add: markSpans_def)
  next
    case False
    with E(2) obtain h where "Q m"
        "E = [widgetAt (index m) (matched m) h link, markRange (index m) (endOf m)]"
      by blast
    then show ?thesis
      by (simp add: markSpans_pair spanOf_def)
  qed
  have le: "\<forall>a \<in> set (markSpans D). endOf m \<le> fst a"
    using D(3) af by (auto simp: spanOf_def)
  have s1: "sorted_wrt (\<lambda>a b. snd a \<le> fst b) (markSpans (E @ D))"
    using ms D(2) le by (auto simp: markSpans_append spanOf_def)
  have s2: "\<forall>a \<in> set (markSpans (E @ D)). \<exists>x \<in> set (m # rest). Q x \<and> a = spanOf x"
    using ms D(3) by (auto simp: markSpans_append)
  have s3: "\<forall>d \<in> set (E @ D). spec d = Mark
          \<or> (\<exists>x \<in> set (m # rest). Q x \<and> (\<exists>h. d = widgetAt (index x) (matched x) h link))"
  proof
    fix d
    assume "d \<in> set (E @ D)"
    then consider "d \<in> set E" | "d \<in> set D"
      by auto
    then show "spec d = Mark
          \<or> (\<exists>x \<in> set (m # rest). Q x \<and> (\<exists>h. d = widgetAt (index x) (matched x) h link))"
    proof cases
      case 1
      with E(2) obtain h where "Q m"
          "d = widgetAt (index m) (matched m) h link \<or> d = markRange (index m) (endOf m)"
        by auto
      then show ?thesis
        by (auto simp: markRange_def)
    next
      case 2
      with D(4) show ?thesis
        by auto
    qed
  qed
  from r s1 s2 s3 show ?case
    by blast
qed

lemma fold_ranges: "foldE rangeBody found acc = Inr (acc @ map spanOf found)"
  by (induction found arbitrary: acc) (simp_all add: rangeBody_def spanOf_def endOf_def)

section \<open>The result of a scan\<close>

lemma sum_list_ones: "sum_list (map (\<lambda>_. Suc 0) xs) = length xs"
  by (induction xs) simp_all

lemma sum_list_unless:
  "sum_list (map (\<lambda>x. if P x then 0 else Suc 0) xs) = length (filter (\<lambda>x. \<not> P x) xs)"
  by (induction xs) simp_all

lemma overlapsAny_iff:
  "overlapsAny (map spanOf bs) f t \<longleftrightarrow>
     (\<exists>b \<in> set bs. (f \<ge> index b \<and> f < endOf b) \<or> (t > index b \<and> t \<le> endOf b)
                    \<or> (f \<le> index b \<and> t \<ge> endOf b))"
  by (simp add: overlapsAny_def list_ex_iff spanOf_def)

lemma overlap_complete:
  assumes "b \<in> set bs" "f < t" "index b < endOf b" "f < endOf b" "index b < t"
  shows "overlapsAny (map spanOf bs) f t"
proof -
  have "(f \<ge> index b \<and> f < endOf b) \<or> (t > index b \<and> t \<le> endOf b)
      \<or> (f \<le> index b \<and> t \<ge> endOf b)"
    using assms(2-5) by linarith
  with assms(1) show ?thesis
    unfolding overlapsAny_iff by blast
qed

lemma no_overlap_disjoint:
  assumes "\<not> overlapsAny (map spanOf bs) f t" "b \<in> set bs" "f < t" "index b < endOf b"
  shows "t \<le> index b \<or> endOf b \<le> f"
  using overlap_complete [OF assms(2,3,4)] assms(1) by linarith

lemma scan_shape:
  "\<exists>bs ps D1 D2.
     occurrencesFrom (createBracketedDateRegex format) text 0 = Inr bs
     \<and> occurrencesFrom (createDateRegex format) text 0 = Inr ps
     \<and> buildDecorations format clock text sel n
         = Inr (sort_key dfrom (D1 @ D2),
                n + length bs
                  + length (filter (\<lambda>p. \<not> overlapsAny (map spanOf bs) (index p) (endOf p)) ps))
     \<and> sorted_wrt (\<lambda>a b. snd a \<le> fst b) (markSpans D1)
     \<and> (\<forall>a \<in> set (markSpans D1). \<exists>m \<in> set bs. a = spanOf m)
     \<and> (\<forall>d \<in> set D1. spec d = Mark
           \<or> (\<exists>m \<in> set bs. \<exists>h. d = widgetAt (index m) (matched m) h True))
     \<and> sorted_wrt (\<lambda>a b. snd a \<le> fst b) (markSpans D2)
     \<and> (\<forall>a \<in> set (markSpans D2). \<exists>m \<in> set ps.
           \<not> overlapsAny (map spanOf bs) (index m) (endOf m) \<and> a = spanOf m)
     \<and> (\<forall>d \<in> set D2. spec d = Mark
           \<or> (\<exists>m \<in> set ps. \<not> overlapsAny (map spanOf bs) (index m) (endOf m)
                 \<and> (\<exists>h. d = widgetAt (index m) (matched m) h False)))"
proof -
  let ?B = "createBracketedDateRegex format" and ?P = "createDateRegex format"
  have posB: "0 < minlen ?B" and posP: "0 < minlen ?P"
    by (simp_all add: minlen_createBracketedDateRegex minlen_createDateRegex)
  from occurrences_total [OF posB, of "text" 0] obtain bs where bs: "occurrencesFrom ?B text 0 = Inr bs"
    by blast
  from occurrences_total [OF posP, of "text" 0] obtain ps where ps: "occurrencesFrom ?P text 0 = Inr ps"
    by blast
  let ?R = "map spanOf bs"
  let ?Q = "\<lambda>p. \<not> overlapsAny ?R (index p) (endOf p)"
  from occurrences_props [OF posB bs] have sb: "sorted_wrt (\<lambda>a b. endOf a \<le> index b) bs"
    by simp
  from occurrences_props [OF posP ps] have sp: "sorted_wrt (\<lambda>a b. endOf a \<le> index b) ps"
    by simp
  have stepB: "\<exists>E. bracketedBody format clock sel m (decs, k) = Inr (decs @ E, k + Suc 0)
        \<and> (E = [] \<or> (True \<and> (\<exists>h. E = [widgetAt (index m) (matched m) h True,
                                       markRange (index m) (endOf m)])))"
    if "m \<in> set bs" for m decs k
  proof -
    from bracketed_occurrence [OF bs that] obtain w where w: "group m 1 = Some w" "w \<in> dateGrammar"
      by blast
    from parse_of_grammar [OF w(2), of format] have "parseDateString w format \<noteq> None"
      by auto
    from bracketed_step [OF w(1) this, of clock sel decs k] show ?thesis
      by simp
  qed
  from fold_emit [of bs "bracketedBody format clock sel" "\<lambda>_. Suc 0" "\<lambda>_. True" True "[]" n,
      OF stepB sb]
  obtain D1 where D1: "foldE (bracketedBody format clock sel) bs ([], n) = Inr (D1, n + length bs)"
      "sorted_wrt (\<lambda>a b. snd a \<le> fst b) (markSpans D1)"
      "\<forall>a \<in> set (markSpans D1). \<exists>m \<in> set bs. a = spanOf m"
      "\<forall>d \<in> set D1. spec d = Mark
           \<or> (\<exists>m \<in> set bs. \<exists>h. d = widgetAt (index m) (matched m) h True)"
    unfolding sum_list_ones by auto
  have stepP: "\<exists>E. plainBody format clock sel ?R m (decs, k)
          = Inr (decs @ E, k + (if overlapsAny ?R (index m) (endOf m) then 0 else Suc 0))
        \<and> (E = [] \<or> (?Q m \<and> (\<exists>h. E = [widgetAt (index m) (matched m) h False,
                                       markRange (index m) (endOf m)])))"
    if "m \<in> set ps" for m decs k
  proof -
    from ps have "occurrences ?P text = Inr ps"
      by (simp add: occurrences_from_0)
    from plain_occurrence [OF this that] have "matched m \<in> dateGrammar"
      by simp
    from parse_of_grammar [OF this, of format] have "parseDateString (matched m) format \<noteq> None"
      by auto
    from plain_step [OF this, of clock sel ?R decs k] show ?thesis
      by auto
  qed
  from fold_emit [of ps "plainBody format clock sel ?R"
      "\<lambda>m. if overlapsAny ?R (index m) (endOf m) then 0 else Suc 0" ?Q False D1 "n + length bs",
      OF stepP sp]
  obtain D2 where D2: "foldE (plainBody format clock sel ?R) ps (D1, n + length bs)
        = Inr (D1 @ D2, n + length bs + length (filter ?Q ps))"
      "sorted_wrt (\<lambda>a b. snd a \<le> fst b) (markSpans D2)"
      "\<forall>a \<in> set (markSpans D2). \<exists>m \<in> set ps. ?Q m \<and> a = spanOf m"
      "\<forall>d \<in> set D2. spec d = Mark
           \<or> (\<exists>m \<in> set ps. ?Q m \<and> (\<exists>h. d = widgetAt (index m) (matched m) h False))"
    unfolding sum_list_unless by auto
  have l1: "execLoop ?B text (bracketedBody format clock sel) 0 ([], n) = Inr (D1, n + length bs)"
    by (simp add: loop_fold [OF bs] D1(1))
  have l2: "execLoop ?B text rangeBody 0 [] = Inr ?R"
    by (simp add: loop_fold [OF bs] fold_ranges)
  have l3: "execLoop ?P text (plainBody format clock sel ?R) 0 (D1, n + length bs)
      = Inr (D1 @ D2, n + length bs + length (filter ?Q ps))"
    by (simp add: loop_fold [OF ps] D2(1))
  have "buildDecorations format clock text sel n
      = Inr (sort_key dfrom (D1 @ D2), n + length bs + length (filter ?Q ps))"
    unfolding buildDecorations_def Let_def l1 sum.case l2 l3 by simp
  with bs ps D1(2-4) D2(2-4) show ?thesis
    by blast
qed

section \<open>Spans that do not overlap\<close>

lemma spans_distinct:
  "sorted_wrt (\<lambda>a b. snd a \<le> fst b) S \<Longrightarrow> \<forall>a \<in> set S. fst a < snd a \<Longrightarrow> distinct (S :: (nat \<times> nat) list)"
proof (induction S)
  case Nil
  show ?case by simp
next
  case (Cons a S)
  have "a \<notin> set S"
  proof
    assume "a \<in> set S"
    with Cons.prems(1) have "snd a \<le> fst a"
      by simp
    with Cons.prems(2) show False
      by simp
  qed
  with Cons show ?case
    by simp
qed

lemma spans_total:
  "sorted_wrt (\<lambda>a b. snd a \<le> fst b) S \<Longrightarrow> a \<in> set S \<Longrightarrow> b \<in> set S \<Longrightarrow> a \<noteq> b \<Longrightarrow>
     snd a \<le> fst b \<or> snd b \<le> fst (a :: nat \<times> nat)"
  by (induction S) auto

lemma spans_sorted:
  assumes "sorted (map fst S)" "distinct S" "\<forall>a \<in> set S. fst a < snd a"
    and "\<forall>a \<in> set S. \<forall>b \<in> set S. a \<noteq> b \<longrightarrow> snd a \<le> fst b \<or> snd b \<le> fst a"
  shows "sorted_wrt (\<lambda>a b. snd a \<le> fst b) (S :: (nat \<times> nat) list)"
  using assms
proof (induction S)
  case Nil
  show ?case by simp
next
  case (Cons a S)
  have "snd a \<le> fst b" if b: "b \<in> set S" for b
  proof -
    from Cons.prems(2) b have ne: "a \<noteq> b"
      by auto
    from Cons.prems(1) b have le: "fst a \<le> fst b"
      by simp
    from Cons.prems(3) b have "fst b < snd b"
      by simp
    with Cons.prems(4) ne b le show ?thesis
      by fastforce
  qed
  moreover from Cons have "sorted_wrt (\<lambda>a b. snd a \<le> fst b) S"
    by simp
  ultimately show ?case
    by simp
qed

lemma markSpans_sort_set: "set (markSpans (sort_key dfrom ds)) = set (markSpans ds)"
  by (simp add: markSpans_def)

lemma markSpans_sort_sorted: "sorted (map fst (markSpans (sort_key dfrom ds)))"
proof -
  have "map fst (markSpans (sort_key dfrom ds))
      = map dfrom (filter (\<lambda>d. spec d = Mark) (sort_key dfrom ds))"
    by (simp add: markSpans_def comp_def)
  moreover have "sorted (map dfrom (filter (\<lambda>d. spec d = Mark) (sort_key dfrom ds)))"
    by (rule sorted_filter) simp
  ultimately show ?thesis
    by simp
qed

lemma markSpans_sort_distinct:
  assumes "distinct (markSpans ds)"
  shows "distinct (markSpans (sort_key dfrom ds))"
proof -
  let ?g = "\<lambda>d. (dfrom d, dto d)" and ?ys = "filter (\<lambda>d. spec d = Mark) ds"
  from assms have "distinct ?ys" "inj_on ?g (set ?ys)"
    by (simp_all add: markSpans_def distinct_map)
  then have "distinct (sort_key dfrom ?ys)" "inj_on ?g (set (sort_key dfrom ?ys))"
    by simp_all
  then have "distinct (map ?g (sort_key dfrom ?ys))"
    by (simp add: distinct_map)
  then show ?thesis
    by (simp add: markSpans_def filter_sort)
qed

lemma bracketed_head: "w \<in> lang (createBracketedDateRegex format) \<Longrightarrow> \<exists>t. w = CHR ''['' # t"
  by (auto simp: createBracketedDateRegex_def)

lemma date_head: "w \<in> dateGrammar \<Longrightarrow> \<exists>c t. w = c # t \<and> c \<noteq> CHR ''[''"
  by (auto simp: dateGrammar_def dayNames_def)

section \<open>The decorations of a scan\<close>

lemma scan_result:
  "\<exists>bs ps decs.
     occurrences (createBracketedDateRegex format) text = Inr bs
     \<and> occurrences (createDateRegex format) text = Inr ps
     \<and> buildDecorations format clock text sel n
         = Inr (decs, n + length bs
                  + length (filter (\<lambda>p. \<not> overlapsAny (map spanOf bs) (index p) (endOf p)) ps))
     \<and> sorted (map dfrom decs)
     \<and> sorted_wrt (\<lambda>a b. snd a \<le> fst b) (markSpans decs)
     \<and> (\<forall>a \<in> set (markSpans decs). fst a < snd a)
     \<and> (\<forall>a \<in> set (markSpans decs). a \<in> spanOf ` set bs \<or> a \<in> spanOf ` set ps)
     \<and> (\<forall>b \<in> set bs. \<forall>p \<in> set ps. index p < endOf b \<and> index b < endOf p \<longrightarrow>
           (index p, endOf p) \<notin> set (markSpans decs)
           \<and> (\<forall>h. widgetAt (index p) (matched p) h False \<notin> set decs))"
proof -
  let ?B = "createBracketedDateRegex format" and ?P = "createDateRegex format"
  let ?R = "\<lambda>a b :: nat \<times> nat. snd a \<le> fst b"
  from scan_shape [of format "text" clock sel n] obtain bs ps D1 D2
    where bs: "occurrencesFrom ?B text 0 = Inr bs"
      and ps: "occurrencesFrom ?P text 0 = Inr ps"
      and bd: "buildDecorations format clock text sel n
         = Inr (sort_key dfrom (D1 @ D2),
                n + length bs
                  + length (filter (\<lambda>p. \<not> overlapsAny (map spanOf bs) (index p) (endOf p)) ps))"
      and s1: "sorted_wrt ?R (markSpans D1)"
      and m1: "\<forall>a \<in> set (markSpans D1). \<exists>m \<in> set bs. a = spanOf m"
      and w1: "\<forall>d \<in> set D1. spec d = Mark
           \<or> (\<exists>m \<in> set bs. \<exists>h. d = widgetAt (index m) (matched m) h True)"
      and s2: "sorted_wrt ?R (markSpans D2)"
      and m2: "\<forall>a \<in> set (markSpans D2). \<exists>m \<in> set ps.
           \<not> overlapsAny (map spanOf bs) (index m) (endOf m) \<and> a = spanOf m"
      and w2: "\<forall>d \<in> set D2. spec d = Mark
           \<or> (\<exists>m \<in> set ps. \<not> overlapsAny (map spanOf bs) (index m) (endOf m)
                 \<and> (\<exists>h. d = widgetAt (index m) (matched m) h False))"
    by blast
  let ?decs = "sort_key dfrom (D1 @ D2)"
  have posB: "0 < minlen ?B" and posP: "0 < minlen ?P"
    by (simp_all add: minlen_createBracketedDateRegex minlen_createDateRegex)
  note pb = occurrences_props [OF posB bs] and pp = occurrences_props [OF posP ps]
  have nb: "index m < endOf m" if "m \<in> set bs" for m
    using pb that by blast
  have np: "index m < endOf m" if "m \<in> set ps" for m
    using pp that by blast
  have tb: "matched m \<in> lang ?B \<and> matched m = take (length (matched m)) (drop (index m) text)"
    if "m \<in> set bs" for m
    using pb that by blast
  have tp: "matched m \<in> dateGrammar \<and> matched m = take (length (matched m)) (drop (index m) text)"
    if "m \<in> set ps" for m
    using pp that unfolding lang_createDateRegex by blast
  have set_marks: "set (markSpans ?decs) = set (markSpans D1) \<union> set (markSpans D2)"
    by (simp add: markSpans_sort_set markSpans_append)
  have ne1: "fst a < snd a" if "a \<in> set (markSpans D1)" for a
    using m1 that nb by (auto simp: spanOf_def)
  have ne2: "fst a < snd a" if "a \<in> set (markSpans D2)" for a
    using m2 that np by (auto simp: spanOf_def)
  have cross: "snd a \<le> fst b \<or> snd b \<le> fst a"
    if a: "a \<in> set (markSpans D1)" and b: "b \<in> set (markSpans D2)" for a b
  proof -
    from m1 a obtain x where x: "x \<in> set bs" "a = spanOf x"
      by blast
    from m2 b obtain y where y: "y \<in> set ps" "\<not> overlapsAny (map spanOf bs) (index y) (endOf y)"
        "b = spanOf y"
      by blast
    from no_overlap_disjoint [OF y(2) x(1) np [OF y(1)] nb [OF x(1)]] x(2) y(3) show ?thesis
      by (auto simp: spanOf_def)
  qed
  have nonempty: "\<forall>a \<in> set (markSpans ?decs). fst a < snd a"
    unfolding set_marks using ne1 ne2 by blast
  have pairwise: "\<forall>a \<in> set (markSpans ?decs). \<forall>b \<in> set (markSpans ?decs).
      a \<noteq> b \<longrightarrow> snd a \<le> fst b \<or> snd b \<le> fst a"
  proof (intro ballI impI)
    fix a b
    assume a: "a \<in> set (markSpans ?decs)" and b: "b \<in> set (markSpans ?decs)" and ne: "a \<noteq> b"
    from a b consider "a \<in> set (markSpans D1)" "b \<in> set (markSpans D1)"
      | "a \<in> set (markSpans D2)" "b \<in> set (markSpans D2)"
      | "a \<in> set (markSpans D1)" "b \<in> set (markSpans D2)"
      | "a \<in> set (markSpans D2)" "b \<in> set (markSpans D1)"
      unfolding set_marks by blast
    then show "snd a \<le> fst b \<or> snd b \<le> fst a"
    proof cases
      case 1
      from spans_total [OF s1 1 ne] show ?thesis .
    next
      case 2
      from spans_total [OF s2 2 ne] show ?thesis .
    next
      case 3
      from cross [OF 3] show ?thesis .
    next
      case 4
      from cross [OF 4(2) 4(1)] show ?thesis
        by blast
    qed
  qed
  have disj: "set (markSpans D1) \<inter> set (markSpans D2) = {}"
  proof (rule ccontr)
    assume "set (markSpans D1) \<inter> set (markSpans D2) \<noteq> {}"
    then obtain a where a: "a \<in> set (markSpans D1)" "a \<in> set (markSpans D2)"
      by blast
    from cross [OF a] ne1 [OF a(1)] show False
      by linarith
  qed
  have "distinct (markSpans (D1 @ D2))"
    unfolding markSpans_append distinct_append
    using spans_distinct [OF s1] spans_distinct [OF s2] ne1 ne2 disj by blast
  then have dist: "distinct (markSpans ?decs)"
    by (rule markSpans_sort_distinct)
  have sorted_spans: "sorted_wrt ?R (markSpans ?decs)"
    by (rule spans_sorted [OF markSpans_sort_sorted dist nonempty pairwise])
  have origin: "\<forall>a \<in> set (markSpans ?decs). a \<in> spanOf ` set bs \<or> a \<in> spanOf ` set ps"
    unfolding set_marks using m1 m2 by blast
  have discard: "(index p, endOf p) \<notin> set (markSpans ?decs)
      \<and> (\<forall>h. widgetAt (index p) (matched p) h False \<notin> set ?decs)"
    if b: "b \<in> set bs" and p: "p \<in> set ps" and o: "index p < endOf b \<and> index b < endOf p"
    for b p
  proof -
    have same: False
      if y: "y \<in> set ps" "\<not> overlapsAny (map spanOf bs) (index y) (endOf y)"
        and e: "index y = index p" "endOf y = endOf p" for y
    proof -
      from overlap_complete [OF b np [OF y(1)] nb [OF b]] o e y(2) show False
        by simp
    qed
    have a1: "(index p, endOf p) \<notin> set (markSpans D1)"
    proof
      assume "(index p, endOf p) \<in> set (markSpans D1)"
      with m1 obtain x where x: "x \<in> set bs" "index x = index p" "endOf x = endOf p"
        by (auto simp: spanOf_def)
      then have "length (matched x) = length (matched p)"
        by (simp add: endOf_def)
      with tb [OF x(1)] tp [OF p] x(2) have "matched x = matched p"
        by metis
      with tb [OF x(1)] tp [OF p] bracketed_head [of "matched x" format] date_head [of "matched p"]
      show False
        by auto
    qed
    have a2: "(index p, endOf p) \<notin> set (markSpans D2)"
    proof
      assume "(index p, endOf p) \<in> set (markSpans D2)"
      with m2 obtain y where "y \<in> set ps" "\<not> overlapsAny (map spanOf bs) (index y) (endOf y)"
          "index y = index p" "endOf y = endOf p"
        by (auto simp: spanOf_def)
      then show False
        by (rule same)
    qed
    have a3: "widgetAt (index p) (matched p) h False \<notin> set D1" for h
    proof
      assume "widgetAt (index p) (matched p) h False \<in> set D1"
      with w1 show False
        by (auto simp: widgetAt_def)
    qed
    have a4: "widgetAt (index p) (matched p) h False \<notin> set D2" for h
    proof
      assume "widgetAt (index p) (matched p) h False \<in> set D2"
      with w2 obtain y h' where y: "y \<in> set ps"
          "\<not> overlapsAny (map spanOf bs) (index y) (endOf y)"
          "widgetAt (index p) (matched p) h False = widgetAt (index y) (matched y) h' False"
        by (auto simp: widgetAt_def)
      from y(3) have "index y = index p" "matched y = matched p"
        by (simp_all add: widgetAt_def)
      then have "index y = index p" "endOf y = endOf p"
        by (simp_all add: endOf_def)
      with y(1,2) show False
        by (rule same)
    qed
    from a1 a2 a3 a4 show ?thesis
      unfolding set_marks by simp
  qed
  have srt: "sorted (map dfrom ?decs)"
    by simp
  from bs ps have o: "occurrences ?B text = Inr bs" "occurrences ?P text = Inr ps"
    by (simp_all add: occurrences_from_0)
  show ?thesis
    by (intro exI [of _ bs] exI [of _ ps] exI [of _ ?decs] conjI o bd srt sorted_spans
        nonempty origin) (use discard in blast)
qed

text \<open>
  Claim C9. For every text buffer the scan ends with a list of decorations ordered by
  ascending start offset, in which the hidden spans are not empty and no two of them
  overlap (each ends before the next starts), and every plain occurrence whose span
  intersects the span of a bracketed occurrence is discarded: neither its widget nor its
  span is in the list.
\<close>

theorem C9_no_overlapping_directives:
  "\<exists>decs n'.
     buildDecorations format clock text sel n = Inr (decs, n')
     \<and> sorted (map dfrom decs)
     \<and> sorted_wrt (\<lambda>a b. snd a \<le> fst b) (markSpans decs)
     \<and> (\<forall>a \<in> set (markSpans decs). fst a < snd a)
     \<and> (\<forall>bs ps b p.
           occurrences (createBracketedDateRegex format) text = Inr bs
           \<and> occurrences (createDateRegex format) text = Inr ps
           \<and> b \<in> set bs \<and> p \<in> set ps \<and> index p < endOf b \<and> index b < endOf p \<longrightarrow>
           (index p, endOf p) \<notin> set (markSpans decs)
           \<and> (\<forall>h. widgetAt (index p) (matched p) h False \<notin> set decs))"
proof -
  from scan_result [of format "text" clock sel n] obtain bs ps decs n'
    where o: "occurrences (createBracketedDateRegex format) text = Inr bs"
      "occurrences (createDateRegex format) text = Inr ps"
      and bd: "buildDecorations format clock text sel n = Inr (decs, n')"
      and p: "sorted (map dfrom decs)" "sorted_wrt (\<lambda>a b. snd a \<le> fst b) (markSpans decs)"
        "\<forall>a \<in> set (markSpans decs). fst a < snd a"
      and d: "\<forall>b \<in> set bs. \<forall>p \<in> set ps. index p < endOf b \<and> index b < endOf p \<longrightarrow>
           (index p, endOf p) \<notin> set (markSpans decs)
           \<and> (\<forall>h. widgetAt (index p) (matched p) h False \<notin> set decs)"
    by blast
  have "\<forall>bs' ps' b p.
           occurrences (createBracketedDateRegex format) text = Inr bs'
           \<and> occurrences (createDateRegex format) text = Inr ps'
           \<and> b \<in> set bs' \<and> p \<in> set ps' \<and> index p < endOf b \<and> index b < endOf p \<longrightarrow>
           (index p, endOf p) \<notin> set (markSpans decs)
           \<and> (\<forall>h. widgetAt (index p) (matched p) h False \<notin> set decs)"
    using o d by auto
  with bd p show ?thesis
    by blast
qed

theorem C9_no_overlapping_directives_witness:
  "buildDecorations DEFAULT_dateFormat (\<lambda>k. newDate 2025 7 29 14 50)
       ''[[Fri Aug 29 2025]] Fri Aug 29 2025'' 100 0
     = Inr ([widgetAt 0 ''[[Fri Aug 29 2025]]'' ''Today'' True, markRange 0 19,
             widgetAt 20 ''Fri Aug 29 2025'' ''Today'' False, markRange 20 35], 2)
   \<and> sorted_wrt (\<lambda>a b. snd a \<le> fst b)
        (markSpans [widgetAt 0 ''[[Fri Aug 29 2025]]'' ''Today'' True, markRange 0 19,
                    widgetAt 20 ''Fri Aug 29 2025'' ''Today'' False, markRange 20 35])
   \<and> (2, 17) \<notin> set (markSpans [widgetAt 0 ''[[Fri Aug 29 2025]]'' ''Today'' True,
                     markRange 0 19, widgetAt 20 ''Fri Aug 29 2025'' ''Today'' False,
                     markRange 20 35])"
proof -
  let ?t = "''[[Fri Aug 29 2025]] Fri Aug 29 2025''"
  let ?c = "\<lambda>k :: nat. newDate 2025 7 29 14 50"
  let ?d = "[widgetAt 0 ''[[Fri Aug 29 2025]]'' ''Today'' True, markRange 0 19,
             widgetAt 20 ''Fri Aug 29 2025'' ''Today'' False, markRange 20 35]"
  let ?b = "\<lparr>index = 0, matched = ''[[Fri Aug 29 2025]]'',
      captures = [Some ''Fri Aug 29 2025'', Some ''Fri'', Some ''Aug'', Some ''29'',
                  Some ''2025'', None, None]\<rparr>"
  let ?p = "\<lparr>index = 2, matched = ''Fri Aug 29 2025'',
      captures = [Some ''Fri'', Some ''Aug'', Some ''29'', Some ''2025'', None, None]\<rparr>"
  let ?q = "\<lparr>index = 20, matched = ''Fri Aug 29 2025'',
      captures = [Some ''Fri'', Some ''Aug'', Some ''29'', Some ''2025'', None, None]\<rparr>"
  have e: "buildDecorations DEFAULT_dateFormat ?c ?t 100 0 = Inr (?d, 2)"
    by code_simp
  have ob: "occurrences (createBracketedDateRegex DEFAULT_dateFormat) ?t = Inr [?b]"
    by code_simp
  have op: "occurrences (createDateRegex DEFAULT_dateFormat) ?t = Inr [?p, ?q]"
    by code_simp
  from C9_no_overlapping_directives [of DEFAULT_dateFormat ?c ?t 100 0] e
  have s: "sorted_wrt (\<lambda>a b. snd a \<le> fst b) (markSpans ?d)"
    and d: "\<forall>bs ps b p.
           occurrences (createBracketedDateRegex DEFAULT_dateFormat) ?t = Inr bs
           \<and> occurrences (createDateRegex DEFAULT_dateFormat) ?t = Inr ps
           \<and> b \<in> set bs \<and> p \<in> set ps \<and> index p < endOf b \<and> index b < endOf p \<longrightarrow>
           (index p, endOf p) \<notin> set (markSpans ?d)"
    by auto
  from d [rule_format, of "[?b]" "[?p, ?q]" ?b ?p] ob op
  have "(index ?p, endOf ?p) \<notin> set (markSpans ?d)"
    by (simp add: endOf_def)
  then have "(2, 17) \<notin> set (markSpans ?d)"
    by (simp add: endOf_def)
  with e s show ?thesis
    by blast
qed

text \<open>
  Claim C4, as stated: now is sampled once in a scan pass, so every occurrence of one
  pass sees the same now. The clock is read inside the formatter, once for each
  occurrence: with a clock that advances by a millisecond from one reading to the next,
  two occurrences of the same date string in one pass are formatted differently.
\<close>

theorem C4_now_per_scan_counterexample:
  "buildDecorations DEFAULT_dateFormat (\<lambda>k. newDate 2025 7 29 14 50 + int k)
       ''Fri Aug 29 2025 14:55 Fri Aug 29 2025 14:55'' 100 0
     = Inr ([widgetAt 0 ''Fri Aug 29 2025 14:55'' ''In 5 mins'' False, markRange 0 21,
             widgetAt 22 ''Fri Aug 29 2025 14:55'' ''Now'' False, markRange 22 43], 2)"
  by code_simp

text \<open>
  Claim C4, amended: the phrase is a function of the parsed date and of the clock reading
  taken in the call; the clock is read once in every call whose string is parsed, and a
  scan pass reads it once for each bracketed occurrence and once for each plain
  occurrence that no bracketed occurrence overlaps.
\<close>

theorem C4_clock_per_occurrence:
  "(parseDateString s format = parseDateString s' format' \<and> clock k = clock' k' \<longrightarrow>
      fst (formatDateAsHumanReadable format clock s k)
        = fst (formatDateAsHumanReadable format' clock' s' k'))
   \<and> snd (formatDateAsHumanReadable format clock s k)
       = (if parseDateString s format = None then k else Suc k)
   \<and> (\<exists>bs ps decs.
         occurrences (createBracketedDateRegex format) text = Inr bs
         \<and> occurrences (createDateRegex format) text = Inr ps
         \<and> buildDecorations format clock text sel n
             = Inr (decs, n + length bs
                      + length (filter (\<lambda>p. \<not> overlapsAny (map spanOf bs) (index p) (endOf p)) ps)))"
proof (intro conjI impI)
  assume "parseDateString s format = parseDateString s' format' \<and> clock k = clock' k'"
  then show "fst (formatDateAsHumanReadable format clock s k)
        = fst (formatDateAsHumanReadable format' clock' s' k')"
    by (simp add: formatDateAsHumanReadable_def Let_def split: option.splits)
next
  show "snd (formatDateAsHumanReadable format clock s k)
       = (if parseDateString s format = None then k else Suc k)"
    by (rule format_reads)
next
  from scan_result [of format "text" clock sel n]
  show "\<exists>bs ps decs.
         occurrences (createBracketedDateRegex format) text = Inr bs
         \<and> occurrences (createDateRegex format) text = Inr ps
         \<and> buildDecorations format clock text sel n
             = Inr (decs, n + length bs
                      + length (filter (\<lambda>p. \<not> overlapsAny (map spanOf bs) (index p) (endOf p)) ps))"
    by blast
qed

theorem C4_clock_per_occurrence_witness:
  "parseDateString ''Fri Aug 29 2025 14:55'' DEFAULT_dateFormat
     = parseDateString ''xx Fri Aug 29 2025 14:55'' DEFAULT_dateFormat
   \<and> fst (formatDateAsHumanReadable DEFAULT_dateFormat (\<lambda>k. 1756479000000)
            ''Fri Aug 29 2025 14:55'' 0)
       = fst (formatDateAsHumanReadable DEFAULT_dateFormat (\<lambda>k. 1756479000000 + int k - 7)
            ''xx Fri Aug 29 2025 14:55'' 7)
   \<and> snd (formatDateAsHumanReadable DEFAULT_dateFormat (\<lambda>k. 1756479000000)
            ''Fri Aug 29 2025 14:55'' 0) = 1"
proof -
  let ?c = "\<lambda>k :: nat. 1756479000000 :: int" and ?c' = "\<lambda>k :: nat. 1756479000000 + int k - 7"
  have p: "parseDateString ''Fri Aug 29 2025 14:55'' DEFAULT_dateFormat
     = parseDateString ''xx Fri Aug 29 2025 14:55'' DEFAULT_dateFormat"
    by code_simp
  have q: "parseDateString ''Fri Aug 29 2025 14:55'' DEFAULT_dateFormat \<noteq> None"
    by code_simp
  have c: "?c 0 = ?c' 7"
    by simp
  note t = C4_clock_per_occurrence [of "''Fri Aug 29 2025 14:55''" DEFAULT_dateFormat
      "''xx Fri Aug 29 2025 14:55''" DEFAULT_dateFormat ?c 0 ?c' 7]
  from t p c have "fst (formatDateAsHumanReadable DEFAULT_dateFormat ?c
            ''Fri Aug 29 2025 14:55'' 0)
       = fst (formatDateAsHumanReadable DEFAULT_dateFormat ?c' ''xx Fri Aug 29 2025 14:55'' 7)"
    by blast
  moreover from t q have "snd (formatDateAsHumanReadable DEFAULT_dateFormat ?c
            ''Fri Aug 29 2025 14:55'' 0) = 1"
    by simp
  ultimately show ?thesis
    using p by blast
qed

section \<open>The range of parsed dates\<close>






section \<open>The first match of the date pattern\<close>






















section \<open>The date that the parser builds\<close>








section \<open>Days beyond the end of a month\<close>














end
